theory Spec2Isabelle
  imports Main
begin

section \<open>Path utilities (vpath) and string comparison (utils)\<close>

text \<open>
  JavaScript strings are modelled as \<open>string\<close> (lists of 8-bit characters): every
  character of the model is one code unit of the source string. The two line
  terminators U+2028 and U+2029 that \<open>.\<close> of a regular expression also refuses are
  outside this character type.
\<close>

datatype error = Error string

definition slash :: char where
  "slash = CHR ''/''"

definition backslash :: char where
  "backslash = CHR 0x5C"

definition normalizeSlashes :: "string \<Rightarrow> string" where
  "normalizeSlashes path = map (\<lambda>c. if c = backslash then slash else c) path"

subsection \<open>The root regular expression\<close>

text \<open>
  \<open>rootRegExp\<close> is
  \<^verbatim>\<open>/^\/(\/(.*?\/(.*?\/)?)?)?|^[a-zA-Z]:\/?|^\w+:\/{2}[^/]*\/?/\<close>:
  three alternatives anchored at the start, tried in this order by the backtracking
  matcher. \<open>lazyToSlash s\<close> is the length matched by \<^verbatim>\<open>.*?\/\<close> at the start of
  \<open>s\<close>: up to and including the first slash, when no line terminator stands before it.
\<close>

definition isLineTerminator :: "char \<Rightarrow> bool" where
  "isLineTerminator c = (c = CHR 0x0A \<or> c = CHR 0x0D)"

definition isLetter :: "char \<Rightarrow> bool" where
  "isLetter c = (c \<in> set ''abcdefghijklmnopqrstuvwxyzABCDEFGHIJKLMNOPQRSTUVWXYZ'')"

definition isWordChar :: "char \<Rightarrow> bool" where
  "isWordChar c = (isLetter c \<or> c \<in> set ''0123456789_'')"

definition lazyToSlash :: "string \<Rightarrow> nat option" where
  "lazyToSlash s =
     (let pre = takeWhile (\<lambda>c. c \<noteq> slash \<and> \<not> isLineTerminator c) s in
      case drop (length pre) s of
        [] \<Rightarrow> None
      | c # _ \<Rightarrow> if c = slash then Some (length pre + 1) else None)"

text \<open>First alternative, \<^verbatim>\<open>^\/(\/(.*?\/(.*?\/)?)?)?\<close>.\<close>

definition matchSlashRoot :: "string \<Rightarrow> nat option" where
  "matchSlashRoot path =
     (case path of
        [] \<Rightarrow> None
      | c # rest \<Rightarrow>
          if c \<noteq> slash then None
          else (case rest of
                  [] \<Rightarrow> Some 1
                | d # rest2 \<Rightarrow>
                    if d \<noteq> slash then Some 1
                    else (case lazyToSlash rest2 of
                            None \<Rightarrow> Some 2
                          | Some n1 \<Rightarrow>
                              (case lazyToSlash (drop n1 rest2) of
                                 None \<Rightarrow> Some (2 + n1)
                               | Some n2 \<Rightarrow> Some (2 + n1 + n2)))))"

text \<open>Second alternative, \<^verbatim>\<open>^[a-zA-Z]:\/?\<close>.\<close>

definition matchDriveRoot :: "string \<Rightarrow> nat option" where
  "matchDriveRoot path =
     (case path of
        c # d # rest \<Rightarrow>
          if isLetter c \<and> d = CHR '':'' then
            (case rest of
               [] \<Rightarrow> Some 2
             | e # _ \<Rightarrow> if e = slash then Some 3 else Some 2)
          else None
      | _ \<Rightarrow> None)"

text \<open>Third alternative, \<^verbatim>\<open>^\w+:\/{2}[^/]*\/?\<close>.\<close>

definition matchUrlRoot :: "string \<Rightarrow> nat option" where
  "matchUrlRoot path =
     (let scheme = takeWhile isWordChar path;
          rest = drop (length scheme) path in
      if scheme = [] then None
      else if take 3 rest \<noteq> [CHR '':'', slash, slash] then None
      else
        (let rest2 = drop 3 rest;
             host = takeWhile (\<lambda>c. c \<noteq> slash) rest2 in
         case drop (length host) rest2 of
           [] \<Rightarrow> Some (length scheme + 3 + length host)
         | _ # _ \<Rightarrow> Some (length scheme + 3 + length host + 1)))"

definition getRootLength :: "string \<Rightarrow> nat" where
  "getRootLength path =
     (case matchSlashRoot path of
        Some n \<Rightarrow> n
      | None \<Rightarrow>
          (case matchDriveRoot path of
             Some n \<Rightarrow> n
           | None \<Rightarrow>
               (case matchUrlRoot path of
                  Some n \<Rightarrow> n
                | None \<Rightarrow> 0)))"

definition isAbsolute :: "string \<Rightarrow> bool" where
  "isAbsolute path = (getRootLength (normalizeSlashes path) = 0)"

subsection \<open>String helpers of the runtime\<close>

text \<open>\<open>String.prototype.split\<close> with a one-character separator.\<close>

fun split :: "char \<Rightarrow> string \<Rightarrow> string list" where
  "split sep [] = [[]]"
| "split sep (c # cs) =
     (if c = sep then [] # split sep cs
      else (case split sep cs of
              [] \<Rightarrow> [[c]]
            | p # ps \<Rightarrow> (c # p) # ps))"

text \<open>\<open>Array.prototype.join\<close>.\<close>

fun join :: "string \<Rightarrow> string list \<Rightarrow> string" where
  "join sep [] = []"
| "join sep [x] = x"
| "join sep (x # y # ys) = x @ sep @ join sep (y # ys)"

text \<open>\<open>path.charAt(path.length - 1) === "/"\<close>.\<close>

definition endsWithSlash :: "string \<Rightarrow> bool" where
  "endsWithSlash path = (path \<noteq> [] \<and> last path = slash)"

text \<open>\<open>String.prototype.lastIndexOf\<close>: the last index of the character, or -1.\<close>

definition lastIndexOf :: "char \<Rightarrow> string \<Rightarrow> int" where
  "lastIndexOf c s =
     (if c \<in> set s then int (length s) - 1 - int (length (takeWhile (\<lambda>x. x \<noteq> c) (rev s)))
      else - 1)"

subsection \<open>vpath\<close>

definition normalizeStep :: "string list \<Rightarrow> string \<Rightarrow> string list" where
  "normalizeStep normalized part =
     (if part = ''.'' then normalized
      else if part = ''..'' \<and> normalized \<noteq> [] \<and> last normalized \<noteq> ''..''
        then butlast normalized
      else if part \<noteq> [] then normalized @ [part]
      else normalized)"

definition getNormalizedParts :: "string \<Rightarrow> nat \<Rightarrow> string list" where
  "getNormalizedParts normalizedSlashedPath rootLength =
     foldl normalizeStep [] (split slash (drop rootLength normalizedSlashedPath))"

definition normalizePath :: "string \<Rightarrow> string" where
  "normalizePath path0 =
     (let path = normalizeSlashes path0;
          rootLength = getRootLength path;
          root = take rootLength path;
          normalized = getNormalizedParts path rootLength in
      if normalized \<noteq> [] then
        (let joinedParts = root @ join [slash] normalized in
         if endsWithSlash path then joinedParts @ [slash] else joinedParts)
      else root)"

definition combinePaths :: "string \<Rightarrow> string \<Rightarrow> string" where
  "combinePaths path1 path2 =
     (if length path1 = 0 then path2
      else if length path2 = 0 then path1
      else if getRootLength path2 \<noteq> 0 then path2
      else if endsWithSlash path1 then path1 @ path2
      else path1 @ [slash] @ path2)"

definition combine :: "string \<Rightarrow> string list \<Rightarrow> string" where
  "combine path paths =
     foldl (\<lambda>p name. combinePaths p (normalizeSlashes name)) (normalizeSlashes path) paths"

definition resolve :: "string \<Rightarrow> string list \<Rightarrow> string" where
  "resolve path paths = normalizePath (combine path paths)"

definition parse :: "string \<Rightarrow> string list" where
  "parse path0 =
     (let path = normalizeSlashes path0;
          rootLength = getRootLength path in
      take rootLength path # getNormalizedParts path rootLength)"

definition format :: "string list \<Rightarrow> string" where
  "format components =
     (case components of
        [] \<Rightarrow> []
      | c # cs \<Rightarrow> c @ join [slash] cs)"

definition basename :: "string \<Rightarrow> string" where
  "basename path0 =
     (let path = normalizeSlashes path0 in
      drop (nat (max (int (getRootLength path)) (lastIndexOf slash path + 1))) path)"

definition dirname :: "string \<Rightarrow> string" where
  "dirname path0 =
     (let path = normalizeSlashes path0 in
      take (nat (max (int (getRootLength path)) (lastIndexOf slash path))) path)"

subsection \<open>compareStrings\<close>

text \<open>
  What \<open>compareStrings\<close> takes from the runtime. The two module constants
  \<open>caseInsensitiveCollator\<close> and \<open>caseSensitiveCollator\<close> are \<open>Intl.Collator\<close>
  objects when the runtime has \<open>Intl\<close> and undefined otherwise, and what a collator
  computes is the runtime's. So is \<open>String.prototype.toUpperCase\<close>: beyond the ASCII
  letters it maps some characters to two characters or to characters outside the
  8-bit character type of this model. All three are parameters.
\<close>

record runtime =
  caseInsensitiveCollator :: "(string \<Rightarrow> string \<Rightarrow> int) option"
  caseSensitiveCollator :: "(string \<Rightarrow> string \<Rightarrow> int) option"
  toUpperCase :: "string \<Rightarrow> string"

text \<open>\<open>a < b\<close> on strings: lexicographic on code units.\<close>

fun stringLess :: "string \<Rightarrow> string \<Rightarrow> bool" where
  "stringLess [] [] = False"
| "stringLess [] (y # ys) = True"
| "stringLess (x # xs) [] = False"
| "stringLess (x # xs) (y # ys) =
     ((of_char x :: nat) < of_char y \<or> (x = y \<and> stringLess xs ys))"

definition compareStrings :: "runtime \<Rightarrow> string \<Rightarrow> string \<Rightarrow> bool \<Rightarrow> int" where
  "compareStrings env a b ignoreCase =
     (if a = b then 0
      else
        (case (if ignoreCase then caseInsensitiveCollator env else caseSensitiveCollator env) of
           Some collator \<Rightarrow> collator a b
         | None \<Rightarrow>
             (let a' = (if ignoreCase then toUpperCase env a else a);
                  b' = (if ignoreCase then toUpperCase env b else b) in
              if stringLess a' b' then - 1 else if stringLess b' a' then 1 else 0)))"

text \<open>
  The runtime the evaluations below use: no \<open>Intl\<close>, and \<open>toUpperCase\<close> as it is on
  strings of ASCII characters, the only strings they compare (\<open>a\<close> to \<open>z\<close> become
  \<open>A\<close> to \<open>Z\<close>, every other ASCII character is kept).
\<close>

definition asciiUpperChar :: "char \<Rightarrow> char" where
  "asciiUpperChar c =
     (let n = (of_char c :: nat) in
      if 97 \<le> n \<and> n \<le> 122 then char_of (n - 32) else c)"

definition noIntl :: runtime where
  "noIntl = \<lparr> caseInsensitiveCollator = None, caseSensitiveCollator = None,
              toUpperCase = map asciiUpperChar \<rparr>"

subsection \<open>relative\<close>

text \<open>
  The first loop of \<open>relative\<close>: the index at which it stops, counting components
  that compare equal from the front.
\<close>

fun commonStart :: "runtime \<Rightarrow> bool \<Rightarrow> string list \<Rightarrow> string list \<Rightarrow> nat" where
  "commonStart env ignoreCase (f # fs) (t # ts) =
     (if compareStrings env f t ignoreCase \<noteq> 0 then 0
      else Suc (commonStart env ignoreCase fs ts))"
| "commonStart env ignoreCase _ _ = 0"

definition relative :: "runtime \<Rightarrow> string \<Rightarrow> string \<Rightarrow> bool \<Rightarrow> error + string" where
  "relative env from to ignoreCase =
     (if \<not> isAbsolute from then Inl (Error ''Path not absolute: from'')
      else if \<not> isAbsolute to then Inl (Error ''Path not absolute: to'')
      else
        (let fromComponents = parse from;
             toComponents = parse to;
             start = commonStart env ignoreCase fromComponents toComponents;
             components = replicate (length fromComponents - start) ''..''
                          @ drop start toComponents in
         Inr (format components)))"


section \<open>The virtual file system (vfs)\<close>

subsection \<open>Objects and the heap\<close>

text \<open>
  The entries of a file system are objects with identity: a clone keeps a reference to
  the entry it was cloned from, and a directory holds references to its children. The
  model keeps every object in a heap, a list indexed by address; \<open>new\<close> appends. The
  five classes share one record, \<open>f_class\<close> is the class of the object, and a field a
  class does not have keeps its initial value. The private fields \<open>_readOnly\<close>,
  \<open>_root\<close>, \<open>_entries\<close>, \<open>_resolver\<close>, \<open>_shadowRoot\<close>, \<open>_content\<close> and
  \<open>_target\<close> are \<open>f_readOnly\<close>, \<open>f_root\<close> and so on; \<open>_resolver\<close> of a file, a
  content callback, is \<open>f_contentResolver\<close>.

  A resolver is the object \<open>createResolver\<close> builds: both callbacks read the path of
  the entry they are given, so they are functions of that path.

  \<open>f_path\<close> holds what the getter \<open>path\<close> returns. The getter memoises a value that
  depends on \<open>name\<close>, \<open>parent\<close> and the parent's path only, all fixed by the
  constructor, so the model computes it there.
\<close>

type_synonym addr = nat

datatype cls =
    VirtualFileSystem
  | VirtualDirectory
  | VirtualDirectorySymlink
  | VirtualFile
  | VirtualFileSymlink
  | NoObject

record FileSystemResolver =
  getEntries :: "string \<Rightarrow> string list \<times> string list"
  getContent :: "string \<Rightarrow> string option"

record obj =
  f_class :: cls
  f_readOnly :: bool
  f_fileSystem :: addr
  f_parent :: addr
  f_name :: string
  f_path :: string
  f_root :: "addr option"
  f_currentDirectory :: string
  f_useCaseSensitiveFileNames :: bool
  f_entries :: "addr list option"
  f_resolver :: "FileSystemResolver option"
  f_content :: "string option"
  f_contentResolver :: "(string \<Rightarrow> string option) option"
  f_shadowRoot :: "addr option"
  f_target :: string

type_synonym heap = "obj list"

text \<open>
  An address beyond the heap is no object (\<open>undefined\<close>): it is an instance of no
  class, and a write to it changes nothing.
\<close>

definition noObject :: obj where
  "noObject = \<lparr> f_class = NoObject, f_readOnly = False, f_fileSystem = 0, f_parent = 0,
      f_name = [], f_path = [], f_root = None, f_currentDirectory = [],
      f_useCaseSensitiveFileNames = False, f_entries = Some [], f_resolver = None,
      f_content = None, f_contentResolver = None, f_shadowRoot = None, f_target = [] \<rparr>"

definition obj_at :: "heap \<Rightarrow> addr \<Rightarrow> obj" where
  "obj_at h a = (if a < length h then h ! a else noObject)"

definition modify :: "heap \<Rightarrow> addr \<Rightarrow> (obj \<Rightarrow> obj) \<Rightarrow> heap" where
  "modify h a f = (if a < length h then h[a := f (h ! a)] else h)"

definition alloc :: "heap \<Rightarrow> obj \<Rightarrow> heap \<times> addr" where
  "alloc h ob = (h @ [ob], length h)"

definition classOf :: "heap \<Rightarrow> addr \<Rightarrow> cls" where
  "classOf h a = f_class (obj_at h a)"

text \<open>\<open>instanceof\<close>: a symlink class extends the class of what it links to.\<close>

definition isVirtualFileSystem :: "heap \<Rightarrow> addr \<Rightarrow> bool" where
  "isVirtualFileSystem h a = (classOf h a = VirtualFileSystem)"

definition isVirtualDirectory :: "heap \<Rightarrow> addr \<Rightarrow> bool" where
  "isVirtualDirectory h a =
     (classOf h a = VirtualDirectory \<or> classOf h a = VirtualDirectorySymlink)"

definition isVirtualFile :: "heap \<Rightarrow> addr \<Rightarrow> bool" where
  "isVirtualFile h a = (classOf h a = VirtualFile \<or> classOf h a = VirtualFileSymlink)"

definition isSymlink :: "heap \<Rightarrow> addr \<Rightarrow> bool" where
  "isSymlink h a =
     (classOf h a = VirtualFileSymlink \<or> classOf h a = VirtualDirectorySymlink)"

subsection \<open>Constructors\<close>

definition newVirtualFileSystem :: "heap \<Rightarrow> string \<Rightarrow> bool \<Rightarrow> heap \<times> addr" where
  "newVirtualFileSystem h currentDirectory useCaseSensitiveFileNames =
     alloc h \<lparr> f_class = VirtualFileSystem, f_readOnly = False, f_fileSystem = length h,
       f_parent = length h, f_name = [], f_path = [], f_root = None,
       f_currentDirectory = normalizeSlashes currentDirectory,
       f_useCaseSensitiveFileNames = useCaseSensitiveFileNames, f_entries = None,
       f_resolver = None, f_content = None, f_contentResolver = None,
       f_shadowRoot = None, f_target = [] \<rparr>"

text \<open>
  What the constructor of \<open>VirtualFileSystemEntry\<close> sets for an entry below
  \<open>parent\<close>, with the value of its \<open>path\<close> getter.
\<close>

definition newEntry :: "heap \<Rightarrow> cls \<Rightarrow> addr \<Rightarrow> string \<Rightarrow> obj" where
  "newEntry h c parent name =
     \<lparr> f_class = c, f_readOnly = False, f_fileSystem = f_fileSystem (obj_at h parent),
       f_parent = parent, f_name = name,
       f_path = (if isVirtualFileSystem h parent then name
                 else combine (f_path (obj_at h parent)) [name]),
       f_root = None, f_currentDirectory = [], f_useCaseSensitiveFileNames = False,
       f_entries = None, f_resolver = None, f_content = None, f_contentResolver = None,
       f_shadowRoot = None, f_target = [] \<rparr>"

definition newVirtualDirectory ::
  "heap \<Rightarrow> addr \<Rightarrow> string \<Rightarrow> FileSystemResolver option \<Rightarrow> heap \<times> addr" where
  "newVirtualDirectory h parent name resolver =
     alloc h ((newEntry h VirtualDirectory parent name)\<lparr> f_resolver := resolver \<rparr>)"

definition newVirtualDirectorySymlink ::
  "heap \<Rightarrow> addr \<Rightarrow> string \<Rightarrow> string \<Rightarrow> heap \<times> addr" where
  "newVirtualDirectorySymlink h parent name target =
     alloc h ((newEntry h VirtualDirectorySymlink parent name)\<lparr> f_target := target \<rparr>)"

text \<open>The \<open>content\<close> argument of a file: a string, a callback, or undefined.\<close>

datatype contentArg =
    ContentString string
  | ContentResolver "string \<Rightarrow> string option"
  | ContentUndefined

definition newVirtualFile :: "heap \<Rightarrow> addr \<Rightarrow> string \<Rightarrow> contentArg \<Rightarrow> heap \<times> addr" where
  "newVirtualFile h parent name content =
     alloc h ((newEntry h VirtualFile parent name)
       \<lparr> f_content := (case content of ContentString s \<Rightarrow> Some s | _ \<Rightarrow> None),
         f_contentResolver := (case content of ContentResolver r \<Rightarrow> Some r | _ \<Rightarrow> None) \<rparr>)"

definition newVirtualFileSymlink ::
  "heap \<Rightarrow> addr \<Rightarrow> string \<Rightarrow> string \<Rightarrow> heap \<times> addr" where
  "newVirtualFileSymlink h parent name target =
     alloc h ((newEntry h VirtualFileSymlink parent name)\<lparr> f_target := target \<rparr>)"

subsection \<open>VirtualFileSystemEntry\<close>

definition isReadOnly :: "heap \<Rightarrow> addr \<Rightarrow> bool" where
  "isReadOnly h a = f_readOnly (obj_at h a)"

text \<open>\<open>makeReadOnly\<close> sets the flag of the entry it is called on, and nothing else.\<close>

definition makeReadOnly :: "heap \<Rightarrow> addr \<Rightarrow> heap" where
  "makeReadOnly h a = modify h a (\<lambda>ob. ob\<lparr> f_readOnly := True \<rparr>)"

definition frozenError :: error where
  "frozenError = Error ''Cannot modify a frozen entry.''"

definition writePreamble :: "heap \<Rightarrow> addr \<Rightarrow> error option" where
  "writePreamble h a = (if f_readOnly (obj_at h a) then Some frozenError else None)"

subsection \<open>The root of a file system, and clone\<close>

text \<open>The getter \<open>root\<close> of \<open>VirtualFileSystem\<close>.\<close>

definition root :: "heap \<Rightarrow> addr \<Rightarrow> heap \<times> addr" where
  "root h fs =
     (case f_root (obj_at h fs) of
        Some r \<Rightarrow> (h, r)
      | None \<Rightarrow>
          (let (h1, r) = newVirtualDirectory h fs [] None;
               h2 = modify h1 fs (\<lambda>ob. ob\<lparr> f_root := Some r \<rparr>);
               h3 = (if isReadOnly h2 fs then makeReadOnly h2 r else h2)
           in (h3, r)))"

definition VirtualDirectory_clone :: "heap \<Rightarrow> addr \<Rightarrow> addr \<Rightarrow> heap \<times> addr" where
  "VirtualDirectory_clone h this parent =
     (let (h1, c) = newVirtualDirectory h parent (f_name (obj_at h this)) None
      in (modify h1 c (\<lambda>ob. ob\<lparr> f_shadowRoot := Some this \<rparr>), c))"

definition VirtualDirectorySymlink_clone :: "heap \<Rightarrow> addr \<Rightarrow> addr \<Rightarrow> heap \<times> addr" where
  "VirtualDirectorySymlink_clone h this parent =
     newVirtualDirectorySymlink h parent (f_name (obj_at h this)) (f_target (obj_at h this))"

definition VirtualFile_clone :: "heap \<Rightarrow> addr \<Rightarrow> addr \<Rightarrow> heap \<times> addr" where
  "VirtualFile_clone h this parent =
     (let (h1, c) = newVirtualFile h parent (f_name (obj_at h this)) ContentUndefined
      in (modify h1 c (\<lambda>ob. ob\<lparr> f_shadowRoot := Some this \<rparr>), c))"

definition VirtualFileSymlink_clone :: "heap \<Rightarrow> addr \<Rightarrow> addr \<Rightarrow> heap \<times> addr" where
  "VirtualFileSymlink_clone h this parent =
     newVirtualFileSymlink h parent (f_name (obj_at h this)) (f_target (obj_at h this))"

definition VirtualFileSystem_clone :: "heap \<Rightarrow> addr \<Rightarrow> heap \<times> addr" where
  "VirtualFileSystem_clone h this =
     (let (h1, fs) = newVirtualFileSystem h (f_currentDirectory (obj_at h this))
                       (f_useCaseSensitiveFileNames (obj_at h this));
          (h2, r) = root h1 this;
          (h3, c) = VirtualDirectory_clone h2 r fs
      in (modify h3 fs (\<lambda>ob. ob\<lparr> f_root := Some c \<rparr>), fs))"

text \<open>
  \<open>entry.clone(parent)\<close>, by the class of \<open>entry\<close>. A file system takes no parent;
  no object is cloned to itself.
\<close>

definition clone :: "heap \<Rightarrow> addr \<Rightarrow> addr \<Rightarrow> heap \<times> addr" where
  "clone h entry parent =
     (case classOf h entry of
        VirtualFileSystem \<Rightarrow> VirtualFileSystem_clone h entry
      | VirtualDirectory \<Rightarrow> VirtualDirectory_clone h entry parent
      | VirtualDirectorySymlink \<Rightarrow> VirtualDirectorySymlink_clone h entry parent
      | VirtualFile \<Rightarrow> VirtualFile_clone h entry parent
      | VirtualFileSymlink \<Rightarrow> VirtualFileSymlink_clone h entry parent
      | NoObject \<Rightarrow> (h, entry))"

subsection \<open>Materialising the children of a directory\<close>

text \<open>\<open>this._entries\<close> read as an array, and \<open>this._entries.push(entry)\<close>.\<close>

definition ownEntries :: "heap \<Rightarrow> addr \<Rightarrow> addr list" where
  "ownEntries h this = (case f_entries (obj_at h this) of Some es \<Rightarrow> es | None \<Rightarrow> [])"

definition pushEntry :: "heap \<Rightarrow> addr \<Rightarrow> addr \<Rightarrow> heap" where
  "pushEntry h this entry =
     modify h this (\<lambda>ob. ob\<lparr> f_entries := Some (ownEntries h this @ [entry]) \<rparr>)"

text \<open>The two loops of the resolver branch and the loop of the shadow branch.\<close>

fun addResolverDirectories ::
  "heap \<Rightarrow> addr \<Rightarrow> FileSystemResolver \<Rightarrow> string list \<Rightarrow> heap" where
  "addResolverDirectories h this resolver [] = h"
| "addResolverDirectories h this resolver (dir # directories) =
     (let (h1, vdir) = newVirtualDirectory h this dir (Some resolver);
          h2 = (if isReadOnly h1 this then makeReadOnly h1 vdir else h1);
          h3 = pushEntry h2 this vdir
      in addResolverDirectories h3 this resolver directories)"

fun addResolverFiles ::
  "heap \<Rightarrow> addr \<Rightarrow> FileSystemResolver \<Rightarrow> string list \<Rightarrow> heap" where
  "addResolverFiles h this resolver [] = h"
| "addResolverFiles h this resolver (file # files) =
     (let (h1, vfile) = newVirtualFile h this file (ContentResolver (getContent resolver));
          h2 = (if isReadOnly h1 this then makeReadOnly h1 vfile else h1);
          h3 = pushEntry h2 this vfile
      in addResolverFiles h3 this resolver files)"

fun cloneEntries :: "heap \<Rightarrow> addr \<Rightarrow> addr list \<Rightarrow> heap" where
  "cloneEntries h this [] = h"
| "cloneEntries h this (entry # rest) =
     (let (h1, c) = clone h entry this;
          h2 = (if isReadOnly h1 this then makeReadOnly h1 c else h1);
          h3 = pushEntry h2 this c
      in cloneEntries h3 this rest)"

text \<open>
  The getter \<open>entries\<close> of \<open>VirtualDirectory\<close>. It stores the empty array and clears
  the resolver and the shadow root before it reads the entries of the shadow root, so
  the number of directories not yet materialised falls with every nested call.
\<close>

definition pending :: "heap \<Rightarrow> nat" where
  "pending h = length (filter (\<lambda>ob. f_entries ob = None) h)"

function entries :: "heap \<Rightarrow> addr \<Rightarrow> heap \<times> addr list" where
  "entries h this =
     (case f_entries (obj_at h this) of
        Some es \<Rightarrow> (h, es)
      | None \<Rightarrow>
          (let resolver = f_resolver (obj_at h this);
               shadowRoot = f_shadowRoot (obj_at h this);
               h1 = modify h this
                      (\<lambda>ob. ob\<lparr> f_entries := Some [], f_resolver := None, f_shadowRoot := None \<rparr>)
           in case resolver of
                Some r \<Rightarrow>
                  (let (files, directories) = getEntries r (f_path (obj_at h1 this));
                       h2 = addResolverDirectories h1 this r directories;
                       h3 = addResolverFiles h2 this r files
                   in (h3, ownEntries h3 this))
              | None \<Rightarrow>
                  (case shadowRoot of
                     Some s \<Rightarrow>
                       (let (h2, shadowEntries) = entries h1 s;
                            h3 = cloneEntries h2 this shadowEntries
                        in (h3, ownEntries h3 this))
                   | None \<Rightarrow> (h1, []))))"
  by pat_completeness auto
termination
proof (relation "measure (\<lambda>(h, this). pending h)")
  show "wf (measure (\<lambda>(h, this). pending h))"
    by simp
next
  fix h :: heap and this :: addr and resolver shadowRoot h1 s
  assume none: "f_entries (obj_at h this) = None"
    and h1: "h1 = modify h this
               (\<lambda>ob. ob\<lparr> f_entries := Some [], f_resolver := None, f_shadowRoot := None \<rparr>)"
  have inb: "this < length h"
    using none by (cases "this < length h") (simp_all add: obj_at_def noObject_def)
  have here: "f_entries (h ! this) = None"
    using none inb by (simp add: obj_at_def)
  have split_h: "h = take this h @ (h ! this) # drop (Suc this) h"
    using inb by (simp add: id_take_nth_drop)
  have upd: "h1 = take this h
      @ ((h ! this)\<lparr> f_entries := Some [], f_resolver := None, f_shadowRoot := None \<rparr>)
      # drop (Suc this) h"
    using inb h1 by (simp add: modify_def upd_conv_take_nth_drop)
  have "pending h = pending (take this h @ (h ! this) # drop (Suc this) h)"
    using split_h by (rule arg_cong)
  then have "pending h1 < pending h"
    by (simp add: upd pending_def here)
  then show "((h1, s), (h, this)) \<in> measure (\<lambda>(h, this). pending h)"
    by simp
qed

declare entries.simps [simp del]

subsection \<open>VirtualFileSystemContainer: listing and lookup\<close>

text \<open>
  \<open>sameName\<close> of the file system \<open>fs\<close>: it hands \<open>useCaseSensitiveFileNames\<close> to
  the parameter \<open>ignoreCase\<close> of \<open>compareStrings\<close>.
\<close>

definition sameName :: "runtime \<Rightarrow> heap \<Rightarrow> addr \<Rightarrow> string \<Rightarrow> string \<Rightarrow> bool" where
  "sameName env h fs a b =
     (compareStrings env a b (f_useCaseSensitiveFileNames (obj_at h fs)) = 0)"

text \<open>
  \<open>getFileSystemEntries()\<close> without \<open>recursive\<close>: \<open>getOwnFileSystemEntries\<close>, which
  is the getter \<open>entries\<close> for a directory and the listing of the root for a file
  system. The recursive listing is not part of this development.
\<close>

definition getFileSystemEntries :: "heap \<Rightarrow> addr \<Rightarrow> heap \<times> addr list" where
  "getFileSystemEntries h this =
     (if isVirtualFileSystem h this then (let (h1, r) = root h this in entries h1 r)
      else entries h this)"

definition getFileSystemEntry ::
  "runtime \<Rightarrow> heap \<Rightarrow> addr \<Rightarrow> string \<Rightarrow> heap \<times> addr option" where
  "getFileSystemEntry env h this name =
     (let (h1, es) = getFileSystemEntries h this
      in (h1, find (\<lambda>entry. sameName env h1 (f_fileSystem (obj_at h1 this))
                               (f_name (obj_at h1 entry)) name) es))"

definition getDirectories :: "heap \<Rightarrow> addr \<Rightarrow> heap \<times> addr list" where
  "getDirectories h this =
     (let (h1, es) = getFileSystemEntries h this in (h1, filter (isVirtualDirectory h1) es))"

definition getFiles :: "heap \<Rightarrow> addr \<Rightarrow> heap \<times> addr list" where
  "getFiles h this =
     (let (h1, es) = getFileSystemEntries h this in (h1, filter (isVirtualFile h1) es))"

definition getDirectory ::
  "runtime \<Rightarrow> heap \<Rightarrow> addr \<Rightarrow> string \<Rightarrow> heap \<times> addr option" where
  "getDirectory env h this name =
     (let (h1, entry) = getFileSystemEntry env h this name
      in (h1, case entry of
                Some e \<Rightarrow> if isVirtualDirectory h1 e then Some e else None
              | None \<Rightarrow> None))"

definition getFile ::
  "runtime \<Rightarrow> heap \<Rightarrow> addr \<Rightarrow> string \<Rightarrow> heap \<times> addr option" where
  "getFile env h this name =
     (let (h1, entry) = getFileSystemEntry env h this name
      in (h1, case entry of
                Some e \<Rightarrow> if isVirtualFile h1 e then Some e else None
              | None \<Rightarrow> None))"

subsection \<open>traversePath and findTarget\<close>

text \<open>
  The loop of \<open>traversePath\<close>, from the directory it has reached and the components
  still to walk; the result is the entry before \<open>getTarget\<close> is applied.
\<close>

fun walk :: "runtime \<Rightarrow> heap \<Rightarrow> addr \<Rightarrow> string list \<Rightarrow> heap \<times> addr option" where
  "walk env h directory [] = (h, Some directory)"
| "walk env h directory (component # components) =
     (let (h1, entry) = getFileSystemEntry env h directory component
      in case entry of
           None \<Rightarrow> (h1, None)
         | Some e \<Rightarrow>
             if isVirtualDirectory h1 e then walk env h1 e components
             else if isVirtualFile h1 e then (h1, Some e)
             else (h1, None))"

text \<open>\<open>traversePath(path)\<close> with no option, or with \<open>followSymlinks\<close> false.\<close>

definition traverse :: "runtime \<Rightarrow> heap \<Rightarrow> addr \<Rightarrow> string \<Rightarrow> heap \<times> addr option" where
  "traverse env h this path =
     (let (h1, r) = root h this
      in walk env h1 r (parse (resolve (f_currentDirectory (obj_at h1 this)) [path])))"

text \<open>
  \<open>findTarget\<close> recurses until it meets a symlink for the second time; nothing in its
  text bounds the recursion, so the model is a partial function and \<open>None\<close> stands for
  a call that does not return. The optional set starts empty.
\<close>

partial_function (option) findTarget ::
  "runtime \<Rightarrow> heap \<Rightarrow> addr \<Rightarrow> string \<Rightarrow> addr set \<Rightarrow> (heap \<times> addr option) option" where
  "findTarget env h vfs target visited =
     (case traverse env h vfs target of
        (h1, None) \<Rightarrow> Some (h1, None)
      | (h1, Some entry) \<Rightarrow>
          if isSymlink h1 entry then
            (if entry \<in> visited then Some (h1, None)
             else findTarget env h1 vfs (f_target (obj_at h1 entry)) (insert entry visited))
          else Some (h1, Some entry))"

declare findTarget.simps [code]

definition getTarget ::
  "runtime \<Rightarrow> heap \<Rightarrow> addr \<Rightarrow> addr \<Rightarrow> (heap \<times> addr option) option" where
  "getTarget env h this entry =
     (if isSymlink h entry then findTarget env h this (f_target (obj_at h entry)) {}
      else Some (h, Some entry))"

text \<open>\<open>traversePath(path, options)\<close>; \<open>follow\<close> is \<open>options && options.followSymlinks\<close>.\<close>

definition traversePath ::
  "runtime \<Rightarrow> heap \<Rightarrow> addr \<Rightarrow> string \<Rightarrow> bool \<Rightarrow> (heap \<times> addr option) option" where
  "traversePath env h this path follow =
     (case traverse env h this path of
        (h1, None) \<Rightarrow> Some (h1, None)
      | (h1, Some entry) \<Rightarrow>
          if follow then getTarget env h1 this entry else Some (h1, Some entry))"

definition directoryExists :: "runtime \<Rightarrow> heap \<Rightarrow> addr \<Rightarrow> string \<Rightarrow> heap \<times> bool" where
  "directoryExists env h this path =
     (case traverse env h this path of
        (h1, Some e) \<Rightarrow> (h1, isVirtualDirectory h1 e)
      | (h1, None) \<Rightarrow> (h1, False))"

definition fileExists :: "runtime \<Rightarrow> heap \<Rightarrow> addr \<Rightarrow> string \<Rightarrow> heap \<times> bool" where
  "fileExists env h this path =
     (case traverse env h this path of
        (h1, Some e) \<Rightarrow> (h1, isVirtualFile h1 e)
      | (h1, None) \<Rightarrow> (h1, False))"

text \<open>\<open>getAccessibleFileSystemEntries\<close>: the names of the files, then of the directories.\<close>

definition getAccessibleFileSystemEntries ::
  "runtime \<Rightarrow> heap \<Rightarrow> addr \<Rightarrow> string \<Rightarrow> heap \<times> string list \<times> string list" where
  "getAccessibleFileSystemEntries env h this path =
     (case traverse env h this path of
        (h1, Some e) \<Rightarrow>
          if isVirtualDirectory h1 e then
            (let (h2, fs) = getFiles h1 e;
                 (h3, ds) = getDirectories h2 e
             in (h3, map (\<lambda>f. f_name (obj_at h3 f)) fs, map (\<lambda>d. f_name (obj_at h3 d)) ds))
          else (h1, [], [])
      | (h1, None) \<Rightarrow> (h1, [], []))"

subsection \<open>Symlinks: the target\<close>

definition targetDirectory ::
  "runtime \<Rightarrow> heap \<Rightarrow> addr \<Rightarrow> (heap \<times> addr option) option" where
  "targetDirectory env h this =
     (case findTarget env h (f_fileSystem (obj_at h this)) (f_target (obj_at h this)) {} of
        None \<Rightarrow> None
      | Some (h1, None) \<Rightarrow> Some (h1, None)
      | Some (h1, Some e) \<Rightarrow> Some (h1, if isVirtualDirectory h1 e then Some e else None))"

definition targetFile ::
  "runtime \<Rightarrow> heap \<Rightarrow> addr \<Rightarrow> (heap \<times> addr option) option" where
  "targetFile env h this =
     (case findTarget env h (f_fileSystem (obj_at h this)) (f_target (obj_at h this)) {} of
        None \<Rightarrow> None
      | Some (h1, None) \<Rightarrow> Some (h1, None)
      | Some (h1, Some e) \<Rightarrow> Some (h1, if isVirtualFile h1 e then Some e else None))"

text \<open>The getter \<open>isBroken\<close> of the two symlink classes.\<close>

definition isBroken :: "runtime \<Rightarrow> heap \<Rightarrow> addr \<Rightarrow> (heap \<times> bool) option" where
  "isBroken env h this =
     (case (if classOf h this = VirtualFileSymlink then targetFile env h this
            else targetDirectory env h this) of
        None \<Rightarrow> None
      | Some (h1, t) \<Rightarrow> Some (h1, t = None))"

text \<open>The setter \<open>target\<close>.\<close>

definition setTarget :: "heap \<Rightarrow> addr \<Rightarrow> string \<Rightarrow> (error \<times> heap) + heap" where
  "setTarget h this v =
     (case writePreamble h this of
        Some e \<Rightarrow> Inl (e, h)
      | None \<Rightarrow> Inr (modify h this (\<lambda>ob. ob\<lparr> f_target := v \<rparr>)))"

subsection \<open>VirtualFile: content\<close>

text \<open>
  The getter \<open>content\<close> of \<open>VirtualFile\<close>. It clears the resolver and the shadow root
  before it reads the content of the shadow root, which \<open>VirtualFile.clone\<close> alone
  assigns and which is a plain file; the number of objects with a shadow root falls
  with every nested call.
\<close>

definition shadowed :: "heap \<Rightarrow> nat" where
  "shadowed h = length (filter (\<lambda>ob. f_shadowRoot ob \<noteq> None) h)"

function VirtualFile_content :: "heap \<Rightarrow> addr \<Rightarrow> heap \<times> string option" where
  "VirtualFile_content h this =
     (case f_content (obj_at h this) of
        Some c \<Rightarrow> (h, Some c)
      | None \<Rightarrow>
          (let resolver = f_contentResolver (obj_at h this);
               shadowRoot = f_shadowRoot (obj_at h this);
               h1 = modify h this (\<lambda>ob. ob\<lparr> f_contentResolver := None, f_shadowRoot := None \<rparr>)
           in case resolver of
                Some r \<Rightarrow>
                  (let c = r (f_path (obj_at h1 this))
                   in (modify h1 this (\<lambda>ob. ob\<lparr> f_content := c \<rparr>), c))
              | None \<Rightarrow>
                  (case shadowRoot of
                     Some s \<Rightarrow>
                       (let (h2, c) = VirtualFile_content h1 s
                        in (modify h2 this (\<lambda>ob. ob\<lparr> f_content := c \<rparr>), c))
                   | None \<Rightarrow> (h1, None))))"
  by pat_completeness auto
termination
proof (relation "measure (\<lambda>(h, this). shadowed h)")
  show "wf (measure (\<lambda>(h, this). shadowed h))"
    by simp
next
  fix h :: heap and this :: addr and resolver shadowRoot h1 s
  assume sh: "shadowRoot = f_shadowRoot (obj_at h this)" "shadowRoot = Some s"
    and h1: "h1 = modify h this (\<lambda>ob. ob\<lparr> f_contentResolver := None, f_shadowRoot := None \<rparr>)"
  have inb: "this < length h"
    using sh by (cases "this < length h") (simp_all add: obj_at_def noObject_def)
  have here: "f_shadowRoot (h ! this) = Some s"
    using sh inb by (simp add: obj_at_def)
  have split_h: "h = take this h @ (h ! this) # drop (Suc this) h"
    using inb by (simp add: id_take_nth_drop)
  have upd: "h1 = take this h
      @ ((h ! this)\<lparr> f_contentResolver := None, f_shadowRoot := None \<rparr>)
      # drop (Suc this) h"
    using inb h1 by (simp add: modify_def upd_conv_take_nth_drop)
  have "shadowed h = shadowed (take this h @ (h ! this) # drop (Suc this) h)"
    using split_h by (rule arg_cong)
  then have "shadowed h1 < shadowed h"
    by (simp add: upd shadowed_def here)
  then show "((h1, s), (h, this)) \<in> measure (\<lambda>(h, this). shadowed h)"
    by simp
qed

declare VirtualFile_content.simps [simp del]

text \<open>The setter \<open>content\<close> of \<open>VirtualFile\<close>.\<close>

definition VirtualFile_setContent ::
  "heap \<Rightarrow> addr \<Rightarrow> string option \<Rightarrow> (error \<times> heap) + heap" where
  "VirtualFile_setContent h this v =
     (case writePreamble h this of
        Some e \<Rightarrow> Inl (e, h)
      | None \<Rightarrow> Inr (modify h this (\<lambda>ob. ob\<lparr> f_contentResolver := None, f_content := v \<rparr>)))"

text \<open>
  The accessors of \<open>VirtualFileSymlink\<close>. What \<open>findTarget\<close> returns is no symlink,
  so the target is a plain file and its accessors are those of \<open>VirtualFile\<close>.
\<close>

definition VirtualFileSymlink_content ::
  "runtime \<Rightarrow> heap \<Rightarrow> addr \<Rightarrow> (heap \<times> string option) option" where
  "VirtualFileSymlink_content env h this =
     (case targetFile env h this of
        None \<Rightarrow> None
      | Some (h1, None) \<Rightarrow> Some (h1, None)
      | Some (h1, Some t) \<Rightarrow> Some (VirtualFile_content h1 t))"

definition VirtualFileSymlink_setContent ::
  "runtime \<Rightarrow> heap \<Rightarrow> addr \<Rightarrow> string option \<Rightarrow> ((error \<times> heap) + heap) option" where
  "VirtualFileSymlink_setContent env h this v =
     (case targetFile env h this of
        None \<Rightarrow> None
      | Some (h1, None) \<Rightarrow> Some (Inr h1)
      | Some (h1, Some t) \<Rightarrow> Some (VirtualFile_setContent h1 t v))"

text \<open>\<open>file.content\<close> and \<open>file.content = v\<close>, by the class of \<open>file\<close>.\<close>

definition content :: "runtime \<Rightarrow> heap \<Rightarrow> addr \<Rightarrow> (heap \<times> string option) option" where
  "content env h file =
     (if classOf h file = VirtualFileSymlink then VirtualFileSymlink_content env h file
      else Some (VirtualFile_content h file))"

definition setContent ::
  "runtime \<Rightarrow> heap \<Rightarrow> addr \<Rightarrow> string option \<Rightarrow> ((error \<times> heap) + heap) option" where
  "setContent env h file v =
     (if classOf h file = VirtualFileSymlink then VirtualFileSymlink_setContent env h file v
      else Some (VirtualFile_setContent h file v))"

subsection \<open>VirtualDirectory: adding and removing children\<close>

type_synonym 'a result = "(error \<times> heap) + (heap \<times> 'a)"

definition VirtualDirectory_addDirectory ::
  "runtime \<Rightarrow> heap \<Rightarrow> addr \<Rightarrow> string \<Rightarrow> FileSystemResolver option \<Rightarrow> addr option result" where
  "VirtualDirectory_addDirectory env h this name resolver =
     (case writePreamble h this of
        Some e \<Rightarrow> Inl (e, h)
      | None \<Rightarrow>
          (case getFileSystemEntry env h this name of
             (h1, Some entry) \<Rightarrow>
               Inr (h1, if isVirtualDirectory h1 entry then Some entry else None)
           | (h1, None) \<Rightarrow>
               (let (h2, entry) = newVirtualDirectory h1 this name resolver;
                    (h3, es) = entries h2 this;
                    h4 = pushEntry h3 this entry
                in Inr (h4, if isVirtualDirectory h4 entry then Some entry else None))))"

definition VirtualDirectory_addFile ::
  "runtime \<Rightarrow> heap \<Rightarrow> addr \<Rightarrow> string \<Rightarrow> contentArg \<Rightarrow> addr option result" where
  "VirtualDirectory_addFile env h this name c =
     (case writePreamble h this of
        Some e \<Rightarrow> Inl (e, h)
      | None \<Rightarrow>
          (case getFileSystemEntry env h this name of
             (h1, Some entry) \<Rightarrow>
               Inr (h1, if isVirtualFile h1 entry then Some entry else None)
           | (h1, None) \<Rightarrow>
               (let (h2, entry) = newVirtualFile h1 this name c;
                    (h3, es) = entries h2 this;
                    h4 = pushEntry h3 this entry
                in Inr (h4, if isVirtualFile h4 entry then Some entry else None))))"

text \<open>The \<open>target\<close> argument of \<open>addSymlink\<close>: a path, or a file or directory.\<close>

datatype symlinkTarget = TargetPath string | TargetEntry addr

definition VirtualDirectory_addSymlink ::
  "runtime \<Rightarrow> heap \<Rightarrow> addr \<Rightarrow> string \<Rightarrow> symlinkTarget \<Rightarrow> addr option result" where
  "VirtualDirectory_addSymlink env h this name target =
     (case writePreamble h this of
        Some e \<Rightarrow> Inl (e, h)
      | None \<Rightarrow>
          (let (h1, targetEntry) =
                 (case target of
                    TargetPath p \<Rightarrow>
                      traverse env h (f_fileSystem (obj_at h this))
                        (resolve (f_path (obj_at h this)) [p])
                  | TargetEntry t \<Rightarrow> (h, Some t))
           in case targetEntry of
                None \<Rightarrow> Inr (h1, None)
              | Some te \<Rightarrow>
                  (let (h2, found) = getFileSystemEntry env h1 this name;
                       created =
                         (case found of
                            Some entry \<Rightarrow> Some (h2, entry)
                          | None \<Rightarrow>
                              if isVirtualFile h2 te then
                                (let (h3, entry) =
                                       newVirtualFileSymlink h2 this name (f_path (obj_at h2 te));
                                     (h4, es) = entries h3 this
                                 in Some (pushEntry h4 this entry, entry))
                              else if isVirtualDirectory h2 te then
                                (let (h3, entry) =
                                       newVirtualDirectorySymlink h2 this name (f_path (obj_at h2 te));
                                     (h4, es) = entries h3 this
                                 in Some (pushEntry h4 this entry, entry))
                              else None)
                   in case created of
                        None \<Rightarrow> Inr (h2, None)
                      | Some (h5, entry) \<Rightarrow>
                          (case target of
                             TargetEntry t \<Rightarrow>
                               if isVirtualFile h5 t then
                                 Inr (h5, if classOf h5 entry = VirtualFileSymlink
                                          then Some entry else None)
                               else if isVirtualDirectory h5 t then
                                 Inr (h5, if classOf h5 entry = VirtualDirectorySymlink
                                          then Some entry else None)
                               else Inr (h5, if isSymlink h5 entry then Some entry else None)
                           | TargetPath p \<Rightarrow>
                               Inr (h5, if isSymlink h5 entry then Some entry else None)))))"

text \<open>
  The loop of \<open>removeDirectory\<close> and \<open>removeFile\<close>: the first index whose entry has
  the name and is an instance of the class asked for.
\<close>

fun removeIndex :: "(addr \<Rightarrow> bool) \<Rightarrow> addr list \<Rightarrow> nat option" where
  "removeIndex matches [] = None"
| "removeIndex matches (entry # rest) =
     (if matches entry then Some 0 else map_option Suc (removeIndex matches rest))"

definition spliceOut :: "nat \<Rightarrow> addr list \<Rightarrow> addr list" where
  "spliceOut i es = take i es @ drop (Suc i) es"

definition removeEntry ::
  "runtime \<Rightarrow> heap \<Rightarrow> addr \<Rightarrow> string \<Rightarrow> (heap \<Rightarrow> addr \<Rightarrow> bool) \<Rightarrow> bool result" where
  "removeEntry env h this name inst =
     (case writePreamble h this of
        Some e \<Rightarrow> Inl (e, h)
      | None \<Rightarrow>
          (let (h1, es) = entries h this
           in case removeIndex
                     (\<lambda>entry. sameName env h1 (f_fileSystem (obj_at h1 this)) name
                                 (f_name (obj_at h1 entry)) \<and> inst h1 entry) es of
                Some i \<Rightarrow>
                  Inr (modify h1 this (\<lambda>ob. ob\<lparr> f_entries := Some (spliceOut i es) \<rparr>), True)
              | None \<Rightarrow> Inr (h1, False)))"

definition VirtualDirectory_removeDirectory ::
  "runtime \<Rightarrow> heap \<Rightarrow> addr \<Rightarrow> string \<Rightarrow> bool result" where
  "VirtualDirectory_removeDirectory env h this name =
     removeEntry env h this name isVirtualDirectory"

definition VirtualDirectory_removeFile ::
  "runtime \<Rightarrow> heap \<Rightarrow> addr \<Rightarrow> string \<Rightarrow> bool result" where
  "VirtualDirectory_removeFile env h this name =
     removeEntry env h this name isVirtualFile"

subsection \<open>VirtualDirectorySymlink: the four overrides\<close>

text \<open>
  The class overrides \<open>addDirectory\<close>, \<open>addFile\<close>, \<open>removeDirectory\<close> and
  \<open>removeFile\<close>; \<open>addSymlink\<close> and the listing are those of \<open>VirtualDirectory\<close>.
  The target that \<open>findTarget\<close> returns is no symlink, so the call on it is the method
  of \<open>VirtualDirectory\<close>.
\<close>

definition VirtualDirectorySymlink_addDirectory ::
  "runtime \<Rightarrow> heap \<Rightarrow> addr \<Rightarrow> string \<Rightarrow> FileSystemResolver option
     \<Rightarrow> addr option result option" where
  "VirtualDirectorySymlink_addDirectory env h this name resolver =
     (case targetDirectory env h this of
        None \<Rightarrow> None
      | Some (h1, None) \<Rightarrow> Some (Inr (h1, None))
      | Some (h1, Some t) \<Rightarrow> Some (VirtualDirectory_addDirectory env h1 t name resolver))"

definition VirtualDirectorySymlink_addFile ::
  "runtime \<Rightarrow> heap \<Rightarrow> addr \<Rightarrow> string \<Rightarrow> contentArg \<Rightarrow> addr option result option" where
  "VirtualDirectorySymlink_addFile env h this name c =
     (case targetDirectory env h this of
        None \<Rightarrow> None
      | Some (h1, None) \<Rightarrow> Some (Inr (h1, None))
      | Some (h1, Some t) \<Rightarrow> Some (VirtualDirectory_addFile env h1 t name c))"

definition VirtualDirectorySymlink_removeDirectory ::
  "runtime \<Rightarrow> heap \<Rightarrow> addr \<Rightarrow> string \<Rightarrow> bool result option" where
  "VirtualDirectorySymlink_removeDirectory env h this name =
     (case targetDirectory env h this of
        None \<Rightarrow> None
      | Some (h1, None) \<Rightarrow> Some (Inr (h1, False))
      | Some (h1, Some t) \<Rightarrow> Some (VirtualDirectory_removeDirectory env h1 t name))"

definition VirtualDirectorySymlink_removeFile ::
  "runtime \<Rightarrow> heap \<Rightarrow> addr \<Rightarrow> string \<Rightarrow> bool result option" where
  "VirtualDirectorySymlink_removeFile env h this name =
     (case targetDirectory env h this of
        None \<Rightarrow> None
      | Some (h1, None) \<Rightarrow> Some (Inr (h1, False))
      | Some (h1, Some t) \<Rightarrow> Some (VirtualDirectory_removeFile env h1 t name))"

text \<open>The calls \<open>directory.addDirectory(...)\<close> and so on, by the class of \<open>directory\<close>.\<close>

definition addDirectory ::
  "runtime \<Rightarrow> heap \<Rightarrow> addr \<Rightarrow> string \<Rightarrow> FileSystemResolver option
     \<Rightarrow> addr option result option" where
  "addDirectory env h directory name resolver =
     (if classOf h directory = VirtualDirectorySymlink
      then VirtualDirectorySymlink_addDirectory env h directory name resolver
      else Some (VirtualDirectory_addDirectory env h directory name resolver))"

definition addFile ::
  "runtime \<Rightarrow> heap \<Rightarrow> addr \<Rightarrow> string \<Rightarrow> contentArg \<Rightarrow> addr option result option" where
  "addFile env h directory name c =
     (if classOf h directory = VirtualDirectorySymlink
      then VirtualDirectorySymlink_addFile env h directory name c
      else Some (VirtualDirectory_addFile env h directory name c))"

definition removeDirectory ::
  "runtime \<Rightarrow> heap \<Rightarrow> addr \<Rightarrow> string \<Rightarrow> bool result option" where
  "removeDirectory env h directory name =
     (if classOf h directory = VirtualDirectorySymlink
      then VirtualDirectorySymlink_removeDirectory env h directory name
      else Some (VirtualDirectory_removeDirectory env h directory name))"

definition removeFile ::
  "runtime \<Rightarrow> heap \<Rightarrow> addr \<Rightarrow> string \<Rightarrow> bool result option" where
  "removeFile env h directory name =
     (if classOf h directory = VirtualDirectorySymlink
      then VirtualDirectorySymlink_removeFile env h directory name
      else Some (VirtualDirectory_removeFile env h directory name))"

subsection \<open>VirtualFileSystem: the operations by path\<close>

text \<open>The loop of \<open>addDirectory\<close> over the components, from the root.\<close>

fun addDirectories ::
  "runtime \<Rightarrow> heap \<Rightarrow> addr \<Rightarrow> FileSystemResolver option \<Rightarrow> string list
     \<Rightarrow> addr option result option" where
  "addDirectories env h directory resolver [] = Some (Inr (h, Some directory))"
| "addDirectories env h directory resolver (component # components) =
     (case addDirectory env h directory component resolver of
        None \<Rightarrow> None
      | Some (Inl e) \<Rightarrow> Some (Inl e)
      | Some (Inr (h1, None)) \<Rightarrow> Some (Inr (h1, None))
      | Some (Inr (h1, Some d)) \<Rightarrow> addDirectories env h1 d resolver components)"

definition VirtualFileSystem_addDirectory ::
  "runtime \<Rightarrow> heap \<Rightarrow> addr \<Rightarrow> string \<Rightarrow> FileSystemResolver option
     \<Rightarrow> addr option result option" where
  "VirtualFileSystem_addDirectory env h this path resolver =
     (case writePreamble h this of
        Some e \<Rightarrow> Some (Inl (e, h))
      | None \<Rightarrow>
          (let components = parse (resolve (f_currentDirectory (obj_at h this)) [path]);
               (h1, r) = root h this
           in addDirectories env h1 r resolver components))"

definition VirtualFileSystem_addFile ::
  "runtime \<Rightarrow> heap \<Rightarrow> addr \<Rightarrow> string \<Rightarrow> contentArg \<Rightarrow> addr option result option" where
  "VirtualFileSystem_addFile env h this path c =
     (case writePreamble h this of
        Some e \<Rightarrow> Some (Inl (e, h))
      | None \<Rightarrow>
          (let absolutePath = resolve (f_currentDirectory (obj_at h this)) [path];
               fileName = basename path;
               directoryPath = dirname absolutePath
           in case VirtualFileSystem_addDirectory env h this directoryPath None of
                None \<Rightarrow> None
              | Some (Inl e) \<Rightarrow> Some (Inl e)
              | Some (Inr (h1, None)) \<Rightarrow> Some (Inr (h1, None))
              | Some (Inr (h1, Some directory)) \<Rightarrow> addFile env h1 directory fileName c))"

definition VirtualFileSystem_addSymlink ::
  "runtime \<Rightarrow> heap \<Rightarrow> addr \<Rightarrow> string \<Rightarrow> symlinkTarget \<Rightarrow> addr option result option" where
  "VirtualFileSystem_addSymlink env h this path target =
     (case writePreamble h this of
        Some e \<Rightarrow> Some (Inl (e, h))
      | None \<Rightarrow>
          (case VirtualFileSystem_addDirectory env h this
                  (dirname (resolve (f_currentDirectory (obj_at h this)) [path])) None of
             None \<Rightarrow> None
           | Some (Inl e) \<Rightarrow> Some (Inl e)
           | Some (Inr (h1, None)) \<Rightarrow> Some (Inr (h1, None))
           | Some (Inr (h1, Some directory)) \<Rightarrow>
               Some (VirtualDirectory_addSymlink env h1 directory (basename path) target)))"

definition VirtualFileSystem_removeDirectory ::
  "runtime \<Rightarrow> heap \<Rightarrow> addr \<Rightarrow> string \<Rightarrow> bool result option" where
  "VirtualFileSystem_removeDirectory env h this path =
     (case writePreamble h this of
        Some e \<Rightarrow> Some (Inl (e, h))
      | None \<Rightarrow>
          (if dirname path = [] then
             (let (h1, r) = root h this in removeDirectory env h1 r (basename path))
           else
             (case traverse env h this (dirname path) of
                (h1, Some container) \<Rightarrow>
                  if isVirtualDirectory h1 container
                  then removeDirectory env h1 container (basename path)
                  else Some (Inr (h1, False))
              | (h1, None) \<Rightarrow> Some (Inr (h1, False)))))"

definition VirtualFileSystem_removeFile ::
  "runtime \<Rightarrow> heap \<Rightarrow> addr \<Rightarrow> string \<Rightarrow> bool result option" where
  "VirtualFileSystem_removeFile env h this path =
     (case writePreamble h this of
        Some e \<Rightarrow> Some (Inl (e, h))
      | None \<Rightarrow>
          (if dirname path = [] then
             (let (h1, r) = root h this in removeFile env h1 r (basename path))
           else
             (case traverse env h this (dirname path) of
                (h1, Some container) \<Rightarrow>
                  if isVirtualDirectory h1 container
                  then removeFile env h1 container (basename path)
                  else Some (Inr (h1, False))
              | (h1, None) \<Rightarrow> Some (Inr (h1, False)))))"

section \<open>Concrete file systems\<close>

text \<open>
  The file systems the evaluations below run on, each built with the operations of
  the model from the empty heap. \<open>resultHeap\<close> is the heap a call returned with.
\<close>

definition resultHeap :: "'a result option \<Rightarrow> heap" where
  "resultHeap r = (case r of Some (Inr (h, v)) \<Rightarrow> h | _ \<Rightarrow> [])"

text \<open>\<open>new VirtualFileSystem("", false)\<close>: the file system is object 0.\<close>

definition emptyFileSystem :: heap where
  "emptyFileSystem = fst (newVirtualFileSystem [] [] False)"

text \<open>
  After \<open>addFile("/a/b.ts", "X")\<close>: the root is object 1, the directories \<open>/\<close> and
  \<open>/a\<close> are objects 2 and 3, the file is object 4.
\<close>

definition oneFile :: heap where
  "oneFile = resultHeap (VirtualFileSystem_addFile noIntl emptyFileSystem 0 ''/a/b.ts''
                           (ContentString ''X''))"

text \<open>Then \<open>makeReadOnly()\<close> on the file system.\<close>

definition frozenFileSystem :: heap where
  "frozenFileSystem = makeReadOnly oneFile 0"

text \<open>
  \<open>addFile("/d/f.ts", "X")\<close>, then \<open>addSymlink("/l", "/d")\<close>: the directory \<open>/d\<close> is
  object 3, its file object 4, the directory symlink \<open>/l\<close> object 5.
\<close>

definition linkedDirectory :: heap where
  "linkedDirectory =
     resultHeap (VirtualFileSystem_addSymlink noIntl
       (resultHeap (VirtualFileSystem_addFile noIntl emptyFileSystem 0 ''/d/f.ts''
                      (ContentString ''X'')))
       0 ''/l'' (TargetPath ''/d''))"

text \<open>
  Then \<open>removeDirectory("/d")\<close> and \<open>addFile("/d", "Y")\<close>: the path \<open>/d\<close> now names
  a file, object 6.
\<close>

definition relinkedToFile :: heap where
  "relinkedToFile =
     resultHeap (VirtualFileSystem_addFile noIntl
       (resultHeap (VirtualFileSystem_removeDirectory noIntl linkedDirectory 0 ''/d''))
       0 ''/d'' (ContentString ''Y''))"

text \<open>The clone of \<open>oneFile\<close>: the new file system is object 5.\<close>

definition clonedFileSystem :: heap where
  "clonedFileSystem = fst (VirtualFileSystem_clone oneFile 0)"

text \<open>\<open>fs.traversePath(path).content\<close>, for a path that names a file.\<close>

definition readFile :: "heap \<Rightarrow> addr \<Rightarrow> string \<Rightarrow> string option" where
  "readFile h fs path =
     (case traverse noIntl h fs path of
        (h1, Some f) \<Rightarrow>
          (case content noIntl h1 f of Some (h2, c) \<Rightarrow> c | None \<Rightarrow> None)
      | (h1, None) \<Rightarrow> None)"

section \<open>Heaps that only grow\<close>

text \<open>
  The notions the proofs about traversal use. Reading a file system materialises
  directories and adding to it appends children, and neither changes what was there:
  \<open>stableObj a b\<close> says that \<open>b\<close> is the object \<open>a\<close> after such steps (class, name,
  owning file system, target and the policy fields are the same, a root that was set
  is still set, a list of children that was materialised has at most grown at its
  end), and \<open>ext h h'\<close> that \<open>h'\<close> is \<open>h\<close> after such steps: every object of \<open>h\<close> is
  stable, and a symlink that is new in \<open>h'\<close> has the target of a symlink of \<open>h\<close> (it is
  a clone). \<open>closed h\<close> says that every reference held in \<open>h\<close> (owning file system,
  root, children) is the address of an object of \<open>h\<close>; no operation of the model makes
  a reference to anything but an object it has allocated.
\<close>

text \<open>The two symlink classes.\<close>

definition linkClass :: "cls \<Rightarrow> bool" where
  "linkClass c = (c = VirtualFileSymlink \<or> c = VirtualDirectorySymlink)"

definition stableObj :: "obj \<Rightarrow> obj \<Rightarrow> bool" where
  "stableObj a b =
     (f_class b = f_class a \<and> f_name b = f_name a \<and> f_fileSystem b = f_fileSystem a
      \<and> f_target b = f_target a \<and> f_currentDirectory b = f_currentDirectory a
      \<and> f_useCaseSensitiveFileNames b = f_useCaseSensitiveFileNames a
      \<and> (\<forall>r. f_root a = Some r \<longrightarrow> f_root b = Some r)
      \<and> (\<forall>es. f_entries a = Some es \<longrightarrow> (\<exists>more. f_entries b = Some (es @ more))))"

definition refsBelow :: "nat \<Rightarrow> obj \<Rightarrow> bool" where
  "refsBelow n ob =
     (f_fileSystem ob < n
      \<and> (case f_root ob of Some r \<Rightarrow> r < n | None \<Rightarrow> True)
      \<and> (case f_entries ob of Some es \<Rightarrow> list_all (\<lambda>e. e < n) es | None \<Rightarrow> True))"

definition closed :: "heap \<Rightarrow> bool" where
  "closed h = list_all (refsBelow (length h)) h"

definition ext :: "heap \<Rightarrow> heap \<Rightarrow> bool" where
  "ext h h' =
     (length h \<le> length h'
      \<and> (\<forall>a < length h. stableObj (h ! a) (h' ! a))
      \<and> (\<forall>a. length h \<le> a \<and> a < length h' \<and> linkClass (f_class (h' ! a))
            \<longrightarrow> (\<exists>b < length h. linkClass (f_class (h ! b)) \<and> f_target (h ! b) = f_target (h' ! a))))"

text \<open>\<open>grows h h'\<close>: from a closed heap to a closed heap that extends it.\<close>

definition grows :: "heap \<Rightarrow> heap \<Rightarrow> bool" where
  "grows h h' = (ext h h' \<and> closed h')"

text \<open>The targets of the symlinks of a heap.\<close>

definition linkTargets :: "heap \<Rightarrow> string set" where
  "linkTargets h = f_target ` {ob \<in> set h. linkClass (f_class ob)}"

text \<open>
  One step of the chain that \<open>findTarget\<close> follows in the file system \<open>vfs\<close>: the
  target names a symlink, and the chain goes on with the target of that symlink.
\<close>

definition linkStep :: "runtime \<Rightarrow> addr \<Rightarrow> heap \<times> string \<Rightarrow> heap \<times> string \<Rightarrow> bool" where
  "linkStep env vfs s s' =
     (\<exists>e. traverse env (fst s) vfs (snd s) = (fst s', Some e) \<and> isSymlink (fst s') e
          \<and> snd s' = f_target (obj_at (fst s') e))"

text \<open>The chain from \<open>target\<close> never leaves the symlinks.\<close>

definition endless :: "runtime \<Rightarrow> addr \<Rightarrow> heap \<Rightarrow> string \<Rightarrow> bool" where
  "endless env vfs h target =
     (\<forall>s. (linkStep env vfs)\<^sup>*\<^sup>* (h, target) s \<longrightarrow> (\<exists>s'. linkStep env vfs s s'))"

text \<open>The chain from \<open>target\<close> comes to a path that names no entry.\<close>

definition deadEnd :: "runtime \<Rightarrow> addr \<Rightarrow> heap \<Rightarrow> string \<Rightarrow> bool" where
  "deadEnd env vfs h target =
     (\<exists>s. (linkStep env vfs)\<^sup>*\<^sup>* (h, target) s \<and> snd (traverse env (fst s) vfs (snd s)) = None)"

text \<open>The chain from \<open>target\<close> contains a cycle: it comes to a target for the second time.\<close>

definition cyclic :: "runtime \<Rightarrow> addr \<Rightarrow> heap \<Rightarrow> string \<Rightarrow> bool" where
  "cyclic env vfs h target =
     (\<exists>s1 h2. (linkStep env vfs)\<^sup>*\<^sup>* (h, target) s1 \<and> (linkStep env vfs)\<^sup>+\<^sup>+ s1 (h2, snd s1))"

text \<open>
  What \<open>isBroken\<close> tests on the result \<open>r\<close> of \<open>findTarget\<close>: a file symlink has no
  target file, a directory symlink no target directory.
\<close>

definition noTargetOfClass :: "cls \<Rightarrow> heap \<Rightarrow> addr option \<Rightarrow> bool" where
  "noTargetOfClass c h r =
     (case r of
        None \<Rightarrow> True
      | Some e \<Rightarrow> if c = VirtualFileSymlink then \<not> isVirtualFile h e else \<not> isVirtualDirectory h e)"

text \<open>
  Two file symlinks that point at each other: \<open>addFile("/t", "X")\<close>,
  \<open>addSymlink("/a", "/t")\<close>, \<open>addSymlink("/b", "/a")\<close>, then the target of \<open>/a\<close>
  (object 4) is set to \<open>/b\<close> (object 5, whose target is \<open>/a\<close>).
\<close>

definition cyclicLinks :: heap where
  "cyclicLinks =
     (case setTarget
        (resultHeap (VirtualFileSystem_addSymlink noIntl
          (resultHeap (VirtualFileSystem_addSymlink noIntl
             (resultHeap (VirtualFileSystem_addFile noIntl emptyFileSystem 0 ''/t'' (ContentString ''X'')))
             0 ''/a'' (TargetPath ''/t'')))
          0 ''/b'' (TargetPath ''/a'')))
        4 ''/b'' of
        Inr h \<Rightarrow> h
      | Inl e \<Rightarrow> [])"

section \<open>Adding a file by path: what the statement needs\<close>

text \<open>\<open>resultValue\<close> is the value a call returned, when it returned.\<close>

definition resultValue :: "'a result option \<Rightarrow> 'a option" where
  "resultValue r = (case r of Some (Inr (h, v)) \<Rightarrow> Some v | _ \<Rightarrow> None)"

text \<open>
  \<open>plainPath env h directory components\<close>: every directory that the components name
  from \<open>directory\<close> on, as far as they already exist in \<open>h\<close>, is a plain
  \<open>VirtualDirectory\<close>; in particular none is a directory symlink.
\<close>

fun plainPath :: "runtime \<Rightarrow> heap \<Rightarrow> addr \<Rightarrow> string list \<Rightarrow> bool" where
  "plainPath env h directory [] = (classOf h directory = VirtualDirectory)"
| "plainPath env h directory (component # components) =
     (classOf h directory = VirtualDirectory \<and>
      (case getFileSystemEntry env h directory component of
         (h1, Some e) \<Rightarrow> plainPath env h1 e components
       | (h1, None) \<Rightarrow> True))"

section \<open>Normalized paths: what the proof of idempotence needs\<close>

text \<open>
  A component that \<open>getNormalizedParts\<close> keeps: not empty, without a slash, and not
  \<open>.\<close>.
\<close>

definition validPart :: "string \<Rightarrow> bool" where
  "validPart x = (x \<noteq> [] \<and> slash \<notin> set x \<and> x \<noteq> ''.'')"

text \<open>
  The lists that \<open>getNormalizedParts\<close> returns: kept components, with \<open>..\<close> only at
  the front (a \<open>..\<close> after another component would have removed it).
\<close>

definition normalParts :: "string list \<Rightarrow> bool" where
  "normalParts ps =
     (list_all validPart ps \<and> ''..'' \<notin> set (dropWhile (\<lambda>x. x = ''..'') ps))"

text \<open>
  What \<open>normalize\<close> writes after the root: nothing, or such a list joined with
  slashes, with or without one slash at the end.
\<close>

definition normalTail :: "string \<Rightarrow> bool" where
  "normalTail w =
     (w = [] \<or> (\<exists>ps t. normalParts ps \<and> ps \<noteq> [] \<and> (t = [] \<or> t = [slash])
                   \<and> w = join [slash] ps @ t))"

text \<open>
  \<open>normalizedRest path rootLength\<close> is that part of the result of \<open>normalize\<close>, as the
  two branches of its \<open>if\<close> compute it (lemma \<open>normalizePath_rest\<close>).
\<close>

definition normalizedRest :: "string \<Rightarrow> nat \<Rightarrow> string" where
  "normalizedRest path rootLength =
     (let normalized = getNormalizedParts path rootLength in
      if normalized \<noteq> [] then
        join [slash] normalized @ (if endsWithSlash path then [slash] else [])
      else [])"

text \<open>
  The length that the optional groups of the first alternative of \<open>rootRegExp\<close> match
  after \<open>//\<close>: \<open>root1\<close> for one group \<^verbatim>\<open>.*?\/\<close>, \<open>root2\<close> for
  \<^verbatim>\<open>(.*?\/(.*?\/)?)?\<close> (lemma \<open>matchSlashRoot_double\<close>).
\<close>

definition root1 :: "string \<Rightarrow> nat" where
  "root1 s = (case lazyToSlash s of None \<Rightarrow> 0 | Some n \<Rightarrow> n)"

definition root2 :: "string \<Rightarrow> nat" where
  "root2 s =
     (case lazyToSlash s of
        None \<Rightarrow> 0
      | Some n1 \<Rightarrow> (case lazyToSlash (drop n1 s) of None \<Rightarrow> n1 | Some n2 \<Rightarrow> n1 + n2))"

section \<open>Clones: what the statement and its proof need\<close>

text \<open>
  \<open>isEntry h a\<close>: the object is a file, a directory or a symlink (an instance of
  \<open>VirtualFile\<close> or of \<open>VirtualDirectory\<close>), which is what a directory holds.
\<close>

definition isEntry :: "heap \<Rightarrow> addr \<Rightarrow> bool" where
  "isEntry h a = (isVirtualDirectory h a \<or> isVirtualFile h a)"

text \<open>
  What \<open>clone\<close> allocates for such an entry: an object of the same class and name
  and, for a symlink, the same target, with nothing materialised; the clone of a file
  or of a directory keeps the entry as its shadow root.
\<close>

definition cloneImage :: "heap \<Rightarrow> addr \<Rightarrow> obj \<Rightarrow> bool" where
  "cloneImage h entry ob =
     (f_class ob = classOf h entry \<and> f_name ob = f_name (obj_at h entry)
      \<and> (isSymlink h entry \<longrightarrow> f_target ob = f_target (obj_at h entry))
      \<and> f_content ob = None \<and> f_contentResolver ob = None \<and> f_entries ob = None
      \<and> f_resolver ob = None
      \<and> (\<not> isSymlink h entry \<longrightarrow> f_shadowRoot ob = Some entry))"

text \<open>One round of the loop of the shadow branch of \<open>entries\<close>.\<close>

definition cloneStep :: "heap \<Rightarrow> addr \<Rightarrow> addr \<Rightarrow> heap \<times> addr" where
  "cloneStep h this entry =
     (let (h1, c) = clone h entry this;
          h2 = (if isReadOnly h1 this then makeReadOnly h1 c else h1)
      in (pushEntry h2 this c, c))"

text \<open>
  The getter \<open>content\<close> writes the three private fields of a file and nothing else,
  and it sets neither a resolver nor a shadow root: \<open>contentOnly ob ob'\<close>. After the
  getter has returned \<open>v\<close> the file is \<open>settled\<close>: it holds \<open>v\<close>, and when \<open>v\<close> is
  undefined it has no resolver and no shadow root left to ask.
\<close>

definition contentOnly :: "obj \<Rightarrow> obj \<Rightarrow> bool" where
  "contentOnly ob ob' =
     (ob' = ob\<lparr> f_content := f_content ob', f_contentResolver := f_contentResolver ob',
                 f_shadowRoot := f_shadowRoot ob' \<rparr>
      \<and> (f_contentResolver ob = None \<longrightarrow> f_contentResolver ob' = None)
      \<and> (f_shadowRoot ob = None \<longrightarrow> f_shadowRoot ob' = None))"

definition settled :: "heap \<Rightarrow> addr \<Rightarrow> string option \<Rightarrow> bool" where
  "settled h a v =
     (f_content (obj_at h a) = v
      \<and> (v = None \<longrightarrow> f_contentResolver (obj_at h a) = None \<and> f_shadowRoot (obj_at h a) = None))"

text \<open>
  The mutations of a directory and of its children: the methods \<open>addDirectory\<close>,
  \<open>addFile\<close>, \<open>addSymlink\<close> (with a file or directory as target), \<open>removeDirectory\<close>,
  \<open>removeFile\<close> and \<open>makeReadOnly\<close> of \<open>VirtualDirectory\<close>, and on the child at an
  index of the listing the setter \<open>content\<close> of \<open>VirtualFile\<close>, the setter \<open>target\<close>
  of a symlink and \<open>makeReadOnly\<close>. Two mutations are not in the list because they
  begin with a lookup by path in the file system: \<open>addSymlink\<close> with a path as
  target, and the setter \<open>content\<close> of a file symlink, which sets the content of the
  file the link resolves to.

  \<open>mutate env h dir m\<close> is the heap after the call, also when the call throws
  (\<open>heapAfter\<close>), and \<open>mutateAll\<close> runs a list of mutations in order.
\<close>

datatype mutation =
    AddDirectory string "FileSystemResolver option"
  | AddFile string contentArg
  | AddSymlink string addr
  | RemoveDirectory string
  | RemoveFile string
  | MakeReadOnly
  | SetContent nat "string option"
  | SetTarget nat string
  | MakeChildReadOnly nat

definition heapAfter :: "'a result \<Rightarrow> heap" where
  "heapAfter r = (case r of Inl (e, h) \<Rightarrow> h | Inr (h, v) \<Rightarrow> h)"

definition mutate :: "runtime \<Rightarrow> heap \<Rightarrow> addr \<Rightarrow> mutation \<Rightarrow> heap" where
  "mutate env h dir m =
     (case m of
        AddDirectory name resolver \<Rightarrow> heapAfter (VirtualDirectory_addDirectory env h dir name resolver)
      | AddFile name c \<Rightarrow> heapAfter (VirtualDirectory_addFile env h dir name c)
      | AddSymlink name t \<Rightarrow> heapAfter (VirtualDirectory_addSymlink env h dir name (TargetEntry t))
      | RemoveDirectory name \<Rightarrow> heapAfter (VirtualDirectory_removeDirectory env h dir name)
      | RemoveFile name \<Rightarrow> heapAfter (VirtualDirectory_removeFile env h dir name)
      | MakeReadOnly \<Rightarrow> makeReadOnly h dir
      | SetContent i v \<Rightarrow>
          (if i < length (ownEntries h dir) \<and> classOf h (ownEntries h dir ! i) = VirtualFile then
             (case VirtualFile_setContent h (ownEntries h dir ! i) v of
                Inl (e, h1) \<Rightarrow> h1 | Inr h1 \<Rightarrow> h1)
           else h)
      | SetTarget i t \<Rightarrow>
          (if i < length (ownEntries h dir) \<and> isSymlink h (ownEntries h dir ! i) then
             (case setTarget h (ownEntries h dir ! i) t of
                Inl (e, h1) \<Rightarrow> h1 | Inr h1 \<Rightarrow> h1)
           else h)
      | MakeChildReadOnly i \<Rightarrow>
          (if i < length (ownEntries h dir) then makeReadOnly h (ownEntries h dir ! i) else h))"

definition mutateAll :: "runtime \<Rightarrow> heap \<Rightarrow> addr \<Rightarrow> mutation list \<Rightarrow> heap" where
  "mutateAll env h dir ms = foldl (\<lambda>h1 m. mutate env h1 dir m) h ms"

text \<open>
  The directory \<open>/a\<close> of \<open>oneFile\<close> (object 3, with the file object 4), cloned below
  the file system and listed: the clone is object 5 and its file object 6.
\<close>

definition clonedDirectory :: heap where
  "clonedDirectory = fst (entries (fst (VirtualDirectory_clone oneFile 3 0)) 5)"
section \<open>Path utilities: the claims\<close>

text \<open>
  C6 (the code departs from the claim). The claim: \<open>isAbsolute(p)\<close> is true if and
  only if the root prefix of \<open>p\<close> has nonzero length. The code compares the root
  length with zero the other way round: for \<open>/a\<close>, whose root \<open>/\<close> has length 1,
  \<open>isAbsolute\<close> is false, and for \<open>a\<close>, which has no root, it is true.
\<close>

theorem isAbsolute_inverted:
  "getRootLength (normalizeSlashes ''/a'') = 1 \<and> isAbsolute ''/a'' = False
   \<and> getRootLength (normalizeSlashes ''a'') = 0 \<and> isAbsolute ''a'' = True"
  by code_simp

text \<open>
  C5 (the code departs from the claim). The claim: \<open>relative\<close> raises when either
  path is not absolute and does not raise for two absolute paths. The code raises for
  the two absolute paths \<open>/a\<close> and \<open>/b\<close> and returns for the two relative paths \<open>a\<close>
  and \<open>b\<close>.
\<close>

theorem relative_raises_on_absolute:
  "relative noIntl ''/a'' ''/b'' False = Inl (Error ''Path not absolute: from'')
   \<and> relative noIntl ''a'' ''/b'' False = Inl (Error ''Path not absolute: to'')
   \<and> relative noIntl ''a'' ''b'' False = Inr ''..b''"
  by code_simp

text \<open>
  C3 (the code departs from the claim). The claim: \<open>relative("/a/b", "/a/c/d", false)\<close>
  returns \<open>../c/d\<close>. The code raises, since \<open>isAbsolute("/a/b")\<close> is false.
\<close>

theorem relative_example_raises:
  "relative noIntl ''/a/b'' ''/a/c/d'' False = Inl (Error ''Path not absolute: from'')"
  by code_simp

section \<open>The file system: evaluations\<close>

text \<open>
  C1 (the code departs from the claim). The claim: after \<open>makeReadOnly()\<close> on a
  container, every mutating operation on a descendant that existed then fails with
  the frozen error. The code sets the flag of the one entry only. On the frozen file
  system the operation by path fails, but the file \<open>/a/b.ts\<close> below it is not read-only:
  its content setter returns, and the content read afterwards is the new one.
\<close>

theorem makeReadOnly_not_recursive:
  "isReadOnly frozenFileSystem 0
   \<and> (case VirtualFileSystem_addFile noIntl frozenFileSystem 0 ''/a/c.ts'' (ContentString ''Y'') of
        Some (Inl (e, h)) \<Rightarrow> e = frozenError | _ \<Rightarrow> False)
   \<and> snd (traverse noIntl frozenFileSystem 0 ''/a/b.ts'') = Some 4
   \<and> \<not> isReadOnly frozenFileSystem 4
   \<and> readFile frozenFileSystem 0 ''/a/b.ts'' = Some ''X''
   \<and> (case VirtualFile_setContent frozenFileSystem 4 (Some ''Z'') of
        Inl e \<Rightarrow> False
      | Inr h \<Rightarrow> readFile h 0 ''/a/b.ts'' = Some ''Z'')"
  by code_simp

text \<open>
  C4 (the code departs from the claim). The claim: every content, listing and mutation
  operation on a symlink delegates to the resolved target. The directory symlink \<open>/l\<close>
  resolves to the directory \<open>/d\<close>, which lists the file \<open>f.ts\<close>; the listing of the
  symlink itself is empty, by object and by path.
\<close>

theorem directory_symlink_listing_not_delegated:
  "map_option snd (targetDirectory noIntl linkedDirectory 5) = Some (Some 3)
   \<and> map_option snd (isBroken noIntl linkedDirectory 5) = Some False
   \<and> snd (getFiles linkedDirectory 3) = [4]
   \<and> snd (getFiles linkedDirectory 5) = []
   \<and> snd (getFileSystemEntries linkedDirectory 5) = []
   \<and> snd (getAccessibleFileSystemEntries noIntl linkedDirectory 0 ''/d'') = ([''f.ts''], [])
   \<and> snd (getAccessibleFileSystemEntries noIntl linkedDirectory 0 ''/l'') = ([], [])"
  by code_simp

section \<open>Traversal only extends the heap, and findTarget returns\<close>

lemma refsBelow_iff:
  "refsBelow n ob =
     (f_fileSystem ob < n
      \<and> (\<forall>r. f_root ob = Some r \<longrightarrow> r < n)
      \<and> (\<forall>es. f_entries ob = Some es \<longrightarrow> (\<forall>e \<in> set es. e < n)))"
  by (auto simp: refsBelow_def list_all_iff split: option.splits)

lemma closed_iff: "closed h = (\<forall>a < length h. refsBelow (length h) (h ! a))"
  by (simp add: closed_def list_all_length)

lemma stableObj_refl [simp]: "stableObj a a"
  by (simp add: stableObj_def)

lemma stableObj_trans: "stableObj a b \<Longrightarrow> stableObj b c \<Longrightarrow> stableObj a c"
  unfolding stableObj_def by (auto; metis append.assoc)

lemma extI:
  assumes "length h \<le> length h'"
    and "\<And>a. a < length h \<Longrightarrow> stableObj (h ! a) (h' ! a)"
    and "\<And>a. length h \<le> a \<Longrightarrow> a < length h' \<Longrightarrow> linkClass (f_class (h' ! a))
           \<Longrightarrow> \<exists>b < length h. linkClass (f_class (h ! b)) \<and> f_target (h ! b) = f_target (h' ! a)"
  shows "ext h h'"
  unfolding ext_def using assms by blast

lemma ext_refl [simp]: "ext h h"
  by (rule extI) auto

lemma ext_trans:
  assumes "ext a b" "ext b c"
  shows "ext a c"
proof -
  have len: "length a \<le> length b" "length b \<le> length c"
    using assms by (simp_all add: ext_def)
  have st: "\<forall>x < length a. stableObj (a ! x) (c ! x)"
  proof (intro allI impI)
    fix x assume "x < length a"
    then have "stableObj (a ! x) (b ! x)" "stableObj (b ! x) (c ! x)"
      using assms len by (simp_all add: ext_def)
    then show "stableObj (a ! x) (c ! x)" by (rule stableObj_trans)
  qed
  have lk: "\<exists>y < length a. linkClass (f_class (a ! y)) \<and> f_target (a ! y) = f_target (c ! x)"
    if x: "length a \<le> x" "x < length c" "linkClass (f_class (c ! x))" for x
  proof (cases "x < length b")
    case True
    then have "stableObj (b ! x) (c ! x)"
      using assms by (simp add: ext_def)
    then have "linkClass (f_class (b ! x))" "f_target (b ! x) = f_target (c ! x)"
      using x by (simp_all add: stableObj_def)
    then show ?thesis
      using assms(1) x True unfolding ext_def by metis
  next
    case False
    then obtain y where y: "y < length b" "linkClass (f_class (b ! y))"
        "f_target (b ! y) = f_target (c ! x)"
      using assms(2) x unfolding ext_def by (metis not_le_imp_less)
    show ?thesis
    proof (cases "y < length a")
      case True
      then have "stableObj (a ! y) (b ! y)"
        using assms by (simp add: ext_def)
      then show ?thesis
        using y True by (auto simp: stableObj_def)
    next
      case False
      then obtain z where "z < length a" "linkClass (f_class (a ! z))"
        "f_target (a ! z) = f_target (b ! y)"
        using assms(1) y unfolding ext_def by (metis not_le_imp_less)
      then show ?thesis using y by auto
    qed
  qed
  show ?thesis
  proof (rule extI)
    show "length a \<le> length c" using len by simp
    show "stableObj (a ! x) (c ! x)" if "x < length a" for x using st that by simp
    show "\<exists>b<length a. linkClass (f_class (a ! b)) \<and> f_target (a ! b) = f_target (c ! x)"
      if "length a \<le> x" "x < length c" "linkClass (f_class (c ! x))" for x
      using lk that by simp
  qed
qed

lemma grows_trans: "grows a b \<Longrightarrow> grows b c \<Longrightarrow> grows a c"
  unfolding grows_def using ext_trans by blast

lemma grows_refl: "closed h \<Longrightarrow> grows h h"
  by (simp add: grows_def)

lemma length_modify [simp]: "length (modify h a f) = length h"
  by (simp add: modify_def)

lemma nth_modify: "b < length h \<Longrightarrow> modify h a f ! b = (if b = a then f (h ! a) else h ! b)"
  by (simp add: modify_def)

lemma obj_at_modify:
  "obj_at (modify h a f) b = (if b = a \<and> a < length h then f (obj_at h a) else obj_at h b)"
  by (simp add: obj_at_def modify_def)

lemma obj_at_append:
  "obj_at (h @ [ob]) a = (if a = length h then ob else obj_at h a)"
  by (auto simp: obj_at_def nth_append)

lemma obj_at_nth: "a < length h \<Longrightarrow> obj_at h a = h ! a"
  by (simp add: obj_at_def)

lemma refsBelow_mono: "refsBelow n ob \<Longrightarrow> n \<le> m \<Longrightarrow> refsBelow m ob"
  unfolding refsBelow_iff by (meson less_le_trans)

lemma closed_refs: "closed h \<Longrightarrow> a < length h \<Longrightarrow> refsBelow (length h) (h ! a)"
  by (simp add: closed_iff)

lemma closed_fileSystem: "closed h \<Longrightarrow> f_fileSystem (obj_at h a) < Suc (length h)"
proof (cases "a < length h")
  case True
  assume "closed h"
  then have "refsBelow (length h) (h ! a)" using True by (rule closed_refs)
  then show ?thesis using True by (simp add: refsBelow_iff obj_at_def)
next
  case False
  then show ?thesis by (simp add: obj_at_def noObject_def)
qed

lemma closed_entries:
  assumes "closed h" "f_entries (obj_at h d) = Some es" "e \<in> set es"
  shows "e < length h"
proof (cases "d < length h")
  case True
  then have "refsBelow (length h) (h ! d)" using assms(1) by (simp add: closed_refs)
  then show ?thesis using assms True by (simp add: refsBelow_iff obj_at_def)
next
  case False
  then show ?thesis using assms by (simp add: obj_at_def noObject_def)
qed

lemma closed_root:
  assumes "closed h" "f_root (obj_at h fs) = Some r"
  shows "r < length h"
proof (cases "fs < length h")
  case True
  then have "refsBelow (length h) (h ! fs)" using assms(1) by (simp add: closed_refs)
  then show ?thesis using assms True by (simp add: refsBelow_iff obj_at_def)
next
  case False
  then show ?thesis using assms by (simp add: obj_at_def noObject_def)
qed

lemma grows_append:
  assumes "closed h" "refsBelow (Suc (length h)) ob"
    and "linkClass (f_class ob) \<Longrightarrow>
           \<exists>b < length h. linkClass (f_class (h ! b)) \<and> f_target (h ! b) = f_target ob"
  shows "grows h (h @ [ob])"
proof -
  have "closed (h @ [ob])"
    unfolding closed_iff
  proof (intro allI impI)
    fix a assume a: "a < length (h @ [ob])"
    show "refsBelow (length (h @ [ob])) ((h @ [ob]) ! a)"
    proof (cases "a < length h")
      case True
      then have "refsBelow (length h) (h ! a)" using assms(1) by (simp add: closed_iff)
      then show ?thesis using True by (simp add: nth_append refsBelow_mono)
    next
      case False
      then have "a = length h" using a by simp
      then show ?thesis using assms(2) by simp
    qed
  qed
  moreover have "\<exists>b < length h. linkClass (f_class (h ! b)) \<and> f_target (h ! b) = f_target ((h @ [ob]) ! a)"
    if "length h \<le> a" "a < length (h @ [ob])" "linkClass (f_class ((h @ [ob]) ! a))" for a
  proof -
    have "a = length h" using that by simp
    then show ?thesis using that assms(3) by simp
  qed
  ultimately show ?thesis
    unfolding grows_def by (intro conjI extI) (simp_all add: nth_append)
qed

lemma grows_modify:
  assumes "closed h"
    and "a < length h \<Longrightarrow> stableObj (h ! a) (f (h ! a))"
    and "a < length h \<Longrightarrow> refsBelow (length h) (f (h ! a))"
  shows "grows h (modify h a f)"
proof -
  have "closed (modify h a f)"
    unfolding closed_iff
  proof (intro allI impI)
    fix b assume b: "b < length (modify h a f)"
    show "refsBelow (length (modify h a f)) (modify h a f ! b)"
      using b assms(1,3) by (auto simp: nth_modify closed_iff)
  qed
  then show ?thesis
    unfolding grows_def using assms(2) by (intro conjI extI) (auto simp: nth_modify)
qed

lemma grows_length: "grows h h' \<Longrightarrow> length h \<le> length h'"
  by (simp add: grows_def ext_def)

lemma grows_closed: "grows h h' \<Longrightarrow> closed h'"
  by (simp add: grows_def)

lemma grows_stable: "grows h h' \<Longrightarrow> a < length h \<Longrightarrow> stableObj (obj_at h a) (obj_at h' a)"
  by (simp add: grows_def ext_def obj_at_def)

lemma ext_stable: "ext h h' \<Longrightarrow> a < length h \<Longrightarrow> stableObj (obj_at h a) (obj_at h' a)"
  by (simp add: ext_def obj_at_def)

lemma grows_makeReadOnly:
  assumes "closed h"
  shows "grows h (makeReadOnly h a)"
  unfolding makeReadOnly_def
proof (rule grows_modify[OF assms])
  show "stableObj (h ! a) ((h ! a)\<lparr>f_readOnly := True\<rparr>)"
    by (simp add: stableObj_def)
  assume "a < length h"
  then have "refsBelow (length h) (h ! a)" using assms by (simp add: closed_refs)
  then show "refsBelow (length h) ((h ! a)\<lparr>f_readOnly := True\<rparr>)"
    by (simp add: refsBelow_iff)
qed

lemma grows_pushEntry:
  assumes "closed h" "e < length h"
  shows "grows h (pushEntry h this e)"
  unfolding pushEntry_def
proof (rule grows_modify[OF assms(1)])
  assume inb: "this < length h"
  show "stableObj (h ! this) ((h ! this)\<lparr>f_entries := Some (ownEntries h this @ [e])\<rparr>)"
    using inb by (simp add: stableObj_def ownEntries_def obj_at_def)
  have "refsBelow (length h) (h ! this)" using inb assms by (simp add: closed_refs)
  then show "refsBelow (length h) ((h ! this)\<lparr>f_entries := Some (ownEntries h this @ [e])\<rparr>)"
    using inb assms by (cases "f_entries (h ! this)") (auto simp: refsBelow_iff ownEntries_def obj_at_def)
qed

lemma newEntry_simps [simp]:
  "f_class (newEntry h c parent name) = c"
  "f_name (newEntry h c parent name) = name"
  "f_fileSystem (newEntry h c parent name) = f_fileSystem (obj_at h parent)"
  "f_root (newEntry h c parent name) = None"
  "f_entries (newEntry h c parent name) = None"
  "f_shadowRoot (newEntry h c parent name) = None"
  "f_resolver (newEntry h c parent name) = None"
  "f_content (newEntry h c parent name) = None"
  "f_contentResolver (newEntry h c parent name) = None"
  "f_readOnly (newEntry h c parent name) = False"
  "f_target (newEntry h c parent name) = []"
  by (simp_all add: newEntry_def)

lemma newVirtualDirectory_eq:
  assumes "newVirtualDirectory h parent name resolver = (h', d)" "closed h"
  shows "d = length h" "length h' = Suc (length h)" "grows h h'"
    "classOf h' d = VirtualDirectory" "f_entries (obj_at h' d) = None"
    "f_name (obj_at h' d) = name" "f_shadowRoot (obj_at h' d) = None"
    "f_resolver (obj_at h' d) = resolver"
    "f_fileSystem (obj_at h' d) = f_fileSystem (obj_at h parent)"
proof -
  define ob where "ob = (newEntry h VirtualDirectory parent name)\<lparr> f_resolver := resolver \<rparr>"
  have h': "h' = h @ [ob]" and d: "d = length h"
    using assms by (simp_all add: newVirtualDirectory_def alloc_def ob_def)
  show "d = length h" by (rule d)
  show "length h' = Suc (length h)" by (simp add: h')
  show "grows h h'"
    unfolding h' using assms(2)
    by (intro grows_append) (simp_all add: ob_def refsBelow_iff linkClass_def closed_fileSystem)
  show "classOf h' d = VirtualDirectory" "f_entries (obj_at h' d) = None"
    "f_name (obj_at h' d) = name" "f_shadowRoot (obj_at h' d) = None"
    "f_resolver (obj_at h' d) = resolver"
    "f_fileSystem (obj_at h' d) = f_fileSystem (obj_at h parent)"
    by (simp_all add: h' d classOf_def obj_at_append ob_def)
qed

lemma newVirtualFile_eq:
  assumes "newVirtualFile h parent name c = (h', f)" "closed h"
  shows "f = length h" "length h' = Suc (length h)" "grows h h'"
    "classOf h' f = VirtualFile" "f_name (obj_at h' f) = name"
    "f_shadowRoot (obj_at h' f) = None"
    "f_content (obj_at h' f) = (case c of ContentString s \<Rightarrow> Some s | _ \<Rightarrow> None)"
    "f_fileSystem (obj_at h' f) = f_fileSystem (obj_at h parent)"
proof -
  define ob where "ob = (newEntry h VirtualFile parent name)
       \<lparr> f_content := (case c of ContentString s \<Rightarrow> Some s | _ \<Rightarrow> None),
         f_contentResolver := (case c of ContentResolver r \<Rightarrow> Some r | _ \<Rightarrow> None) \<rparr>"
  have h': "h' = h @ [ob]" and f: "f = length h"
    using assms by (simp_all add: newVirtualFile_def alloc_def ob_def)
  show "f = length h" by (rule f)
  show "length h' = Suc (length h)" by (simp add: h')
  show "grows h h'"
    unfolding h' using assms(2)
    by (intro grows_append) (simp_all add: ob_def refsBelow_iff linkClass_def closed_fileSystem)
  show "classOf h' f = VirtualFile" "f_name (obj_at h' f) = name"
    "f_shadowRoot (obj_at h' f) = None"
    "f_content (obj_at h' f) = (case c of ContentString s \<Rightarrow> Some s | _ \<Rightarrow> None)"
    "f_fileSystem (obj_at h' f) = f_fileSystem (obj_at h parent)"
    by (simp_all add: h' f classOf_def obj_at_append ob_def)
qed

lemma newVirtualFileSystem_eq:
  assumes "newVirtualFileSystem h cd cs = (h', fs)" "closed h"
  shows "fs = length h" "length h' = Suc (length h)" "grows h h'"
    "f_root (obj_at h' fs) = None"
proof -
  show "fs = length h" "length h' = Suc (length h)" "f_root (obj_at h' fs) = None"
    using assms by (auto simp: newVirtualFileSystem_def alloc_def obj_at_append)
  show "grows h h'"
    using assms unfolding newVirtualFileSystem_def alloc_def
    by (auto intro!: grows_append simp: refsBelow_iff linkClass_def)
qed

lemma link_inb: "linkClass (classOf h this) \<Longrightarrow> this < length h"
  by (cases "this < length h") (simp_all add: classOf_def obj_at_def noObject_def linkClass_def)

lemma newVirtualDirectorySymlink_eq:
  assumes "newVirtualDirectorySymlink h parent name (f_target (obj_at h this)) = (h', d)"
    "closed h" "linkClass (classOf h this)"
  shows "d = length h" "length h' = Suc (length h)" "grows h h'"
proof -
  have inb: "this < length h" using assms(3) by (rule link_inb)
  then have wit: "\<exists>b<length h. linkClass (f_class (h ! b)) \<and> f_target (h ! b) = f_target (obj_at h this)"
    using assms(3) by (auto simp: classOf_def obj_at_def)
  show "d = length h" "length h' = Suc (length h)"
    using assms(1) by (auto simp: newVirtualDirectorySymlink_def alloc_def)
  show "grows h h'"
    using assms(1,2) wit unfolding newVirtualDirectorySymlink_def alloc_def
    by (auto intro!: grows_append simp: refsBelow_iff closed_fileSystem)
qed

lemma newVirtualFileSymlink_eq:
  assumes "newVirtualFileSymlink h parent name (f_target (obj_at h this)) = (h', d)"
    "closed h" "linkClass (classOf h this)"
  shows "d = length h" "length h' = Suc (length h)" "grows h h'"
proof -
  have inb: "this < length h" using assms(3) by (rule link_inb)
  then have wit: "\<exists>b<length h. linkClass (f_class (h ! b)) \<and> f_target (h ! b) = f_target (obj_at h this)"
    using assms(3) by (auto simp: classOf_def obj_at_def)
  show "d = length h" "length h' = Suc (length h)"
    using assms(1) by (auto simp: newVirtualFileSymlink_def alloc_def)
  show "grows h h'"
    using assms(1,2) wit unfolding newVirtualFileSymlink_def alloc_def
    by (auto intro!: grows_append simp: refsBelow_iff closed_fileSystem)
qed

lemma grows_set_shadowRoot:
  assumes "closed h"
  shows "grows h (modify h a (\<lambda>ob. ob\<lparr> f_shadowRoot := s \<rparr>))"
proof (rule grows_modify[OF assms])
  show "stableObj (h ! a) ((h ! a)\<lparr>f_shadowRoot := s\<rparr>)"
    by (simp add: stableObj_def)
  assume "a < length h"
  then have "refsBelow (length h) (h ! a)" using assms by (simp add: closed_refs)
  then show "refsBelow (length h) ((h ! a)\<lparr>f_shadowRoot := s\<rparr>)"
    by (simp add: refsBelow_iff)
qed

lemma root_eq:
  assumes "root h fs = (h', r)" "closed h"
  shows "grows h h'" "r < length h'" "fs < length h \<Longrightarrow> f_root (obj_at h' fs) = Some r"
proof -
  show "grows h h'" "r < length h'" "fs < length h \<Longrightarrow> f_root (obj_at h' fs) = Some r"
  proof (atomize (full), cases "f_root (obj_at h fs)")
    case (Some r0)
    then have "h' = h" "r = r0" using assms by (simp_all add: root_def)
    then show "grows h h' \<and> r < length h' \<and> (fs < length h \<longrightarrow> f_root (obj_at h' fs) = Some r)"
      using Some assms(2) closed_root by (auto simp: grows_refl)
  next
    case None
    obtain h1 d where n: "newVirtualDirectory h fs [] None = (h1, d)"
      by (cases "newVirtualDirectory h fs [] None")
    note nd = newVirtualDirectory_eq[OF n assms(2)]
    define h2 where "h2 = modify h1 fs (\<lambda>ob. ob\<lparr> f_root := Some d \<rparr>)"
    have c1: "closed h1" using nd(3) by (rule grows_closed)
    have fs1: "f_root (obj_at h1 fs) = None"
      using None nd(3) by (simp add: obj_at_append grows_def newVirtualDirectory_def alloc_def)
        (use n in \<open>auto simp: newVirtualDirectory_def alloc_def obj_at_append\<close>)
    have g12: "grows h1 h2"
      unfolding h2_def
    proof (rule grows_modify[OF c1])
      assume inb: "fs < length h1"
      have "f_root (h1 ! fs) = None" using fs1 inb by (simp add: obj_at_def)
      then show "stableObj (h1 ! fs) ((h1 ! fs)\<lparr>f_root := Some d\<rparr>)"
        by (simp add: stableObj_def)
      have "refsBelow (length h1) (h1 ! fs)" using inb c1 by (simp add: closed_refs)
      then show "refsBelow (length h1) ((h1 ! fs)\<lparr>f_root := Some d\<rparr>)"
        using nd(1,2) by (simp add: refsBelow_iff)
    qed
    have c2: "closed h2" using g12 by (rule grows_closed)
    have res: "h' = (if isReadOnly h2 fs then makeReadOnly h2 d else h2)" "r = d"
      using assms(1) None n by (auto simp: root_def h2_def Let_def)
    have g2: "grows h2 h'"
      using res c2 by (simp add: grows_makeReadOnly grows_refl)
    have "fs < length h \<Longrightarrow> f_root (obj_at h' fs) = Some r"
      using res nd(1,2) by (auto simp: h2_def obj_at_modify makeReadOnly_def)
    moreover have "r < length h'"
      using res nd(1,2) by (auto simp: h2_def makeReadOnly_def)
    ultimately show "grows h h' \<and> r < length h' \<and> (fs < length h \<longrightarrow> f_root (obj_at h' fs) = Some r)"
      using nd(3) g12 g2 grows_trans by blast
  qed
qed

lemma root_known: "f_root (obj_at h fs) = Some r \<Longrightarrow> root h fs = (h, r)"
  by (simp add: root_def)

lemma VirtualDirectory_clone_eq:
  assumes "VirtualDirectory_clone h this parent = (h', c)" "closed h"
  shows "grows h h'" "c < length h'"
proof -
  obtain h1 d where n: "newVirtualDirectory h parent (f_name (obj_at h this)) None = (h1, d)"
    by (cases "newVirtualDirectory h parent (f_name (obj_at h this)) None")
  note nd = newVirtualDirectory_eq[OF n assms(2)]
  have res: "h' = modify h1 d (\<lambda>ob. ob\<lparr> f_shadowRoot := Some this \<rparr>)" "c = d"
    using assms(1) n by (auto simp: VirtualDirectory_clone_def)
  have "grows h1 h'" unfolding res using grows_closed[OF nd(3)] by (rule grows_set_shadowRoot)
  then show "grows h h'" using nd(3) grows_trans by blast
  show "c < length h'" using res nd by simp
qed

lemma VirtualFile_clone_eq:
  assumes "VirtualFile_clone h this parent = (h', c)" "closed h"
  shows "grows h h'" "c < length h'"
proof -
  obtain h1 d where n: "newVirtualFile h parent (f_name (obj_at h this)) ContentUndefined = (h1, d)"
    by (cases "newVirtualFile h parent (f_name (obj_at h this)) ContentUndefined")
  note nd = newVirtualFile_eq[OF n assms(2)]
  have res: "h' = modify h1 d (\<lambda>ob. ob\<lparr> f_shadowRoot := Some this \<rparr>)" "c = d"
    using assms(1) n by (auto simp: VirtualFile_clone_def)
  have "grows h1 h'" unfolding res using grows_closed[OF nd(3)] by (rule grows_set_shadowRoot)
  then show "grows h h'" using nd(3) grows_trans by blast
  show "c < length h'" using res nd by simp
qed

lemma VirtualFileSystem_clone_eq:
  assumes "VirtualFileSystem_clone h this = (h', c)" "closed h" "this < length h"
  shows "grows h h'" "c < length h'"
proof -
  obtain h1 fs where n: "newVirtualFileSystem h (f_currentDirectory (obj_at h this))
                       (f_useCaseSensitiveFileNames (obj_at h this)) = (h1, fs)"
    by (cases "newVirtualFileSystem h (f_currentDirectory (obj_at h this))
                       (f_useCaseSensitiveFileNames (obj_at h this))")
  note nf = newVirtualFileSystem_eq[OF n assms(2)]
  obtain h2 r where r: "root h1 this = (h2, r)" by (cases "root h1 this")
  note rt = root_eq[OF r grows_closed[OF nf(3)]]
  obtain h3 d where d: "VirtualDirectory_clone h2 r fs = (h3, d)"
    by (cases "VirtualDirectory_clone h2 r fs")
  note cl = VirtualDirectory_clone_eq[OF d grows_closed[OF rt(1)]]
  have res: "h' = modify h3 fs (\<lambda>ob. ob\<lparr> f_root := Some d \<rparr>)" "c = fs"
    using assms(1) n r d by (auto simp: VirtualFileSystem_clone_def)
  have len: "fs < length h1" "length h1 \<le> length h2" "length h2 \<le> length h3"
    using nf grows_length[OF rt(1)] grows_length[OF cl(1)] by simp_all
  have g13: "grows h1 h3" using rt(1) cl(1) grows_trans by blast
  have "stableObj (obj_at h1 fs) (obj_at h3 fs)"
    using g13 len by (simp add: grows_stable)
  have ne: "fs \<noteq> this" using nf(1) assms(3) by simp
  have "f_root (obj_at h2 fs) = None"
    using r nf(4) ne
    by (auto simp: root_def Let_def obj_at_modify makeReadOnly_def newVirtualDirectory_def
          alloc_def obj_at_append split: option.splits if_splits prod.splits)
  moreover have "obj_at h3 fs = obj_at h2 fs"
    using d len
    by (auto simp: VirtualDirectory_clone_def newVirtualDirectory_def alloc_def obj_at_modify
          obj_at_append split: prod.splits)
  ultimately have root3: "f_root (h3 ! fs) = None"
    using len by (simp add: obj_at_def)
  have "grows h3 h'"
    unfolding res
  proof (rule grows_modify[OF grows_closed[OF cl(1)]])
    assume inb: "fs < length h3"
    show "stableObj (h3 ! fs) ((h3 ! fs)\<lparr>f_root := Some d\<rparr>)"
      using root3 by (simp add: stableObj_def)
    have "refsBelow (length h3) (h3 ! fs)"
      using inb grows_closed[OF cl(1)] by (simp add: closed_refs)
    then show "refsBelow (length h3) ((h3 ! fs)\<lparr>f_root := Some d\<rparr>)"
      using cl(2) by (simp add: refsBelow_iff)
  qed
  then show "grows h h'"
    using nf(3) g13 grows_trans by blast
  show "c < length h'" using res len by simp
qed

lemma clone_eq:
  assumes "clone h entry parent = (h', c)" "closed h" "entry < length h"
  shows "grows h h'" "c < length h'"
proof -
  have "grows h h' \<and> c < length h'"
  proof (cases "classOf h entry")
    case VirtualFileSystem
    then have "VirtualFileSystem_clone h entry = (h', c)" using assms(1) by (simp add: clone_def)
    then show ?thesis using VirtualFileSystem_clone_eq assms(2,3) by blast
  next
    case VirtualDirectory
    then have "VirtualDirectory_clone h entry parent = (h', c)" using assms(1) by (simp add: clone_def)
    then show ?thesis using VirtualDirectory_clone_eq assms(2) by blast
  next
    case VirtualDirectorySymlink
    then have "newVirtualDirectorySymlink h parent (f_name (obj_at h entry)) (f_target (obj_at h entry)) = (h', c)"
      using assms(1) by (simp add: clone_def VirtualDirectorySymlink_clone_def)
    from newVirtualDirectorySymlink_eq[OF this assms(2)] VirtualDirectorySymlink
    show ?thesis by (simp add: linkClass_def)
  next
    case VirtualFile
    then have "VirtualFile_clone h entry parent = (h', c)" using assms(1) by (simp add: clone_def)
    then show ?thesis using VirtualFile_clone_eq assms(2) by blast
  next
    case VirtualFileSymlink
    then have "newVirtualFileSymlink h parent (f_name (obj_at h entry)) (f_target (obj_at h entry)) = (h', c)"
      using assms(1) by (simp add: clone_def VirtualFileSymlink_clone_def)
    from newVirtualFileSymlink_eq[OF this assms(2)] VirtualFileSymlink
    show ?thesis by (simp add: linkClass_def)
  next
    case NoObject
    then have "h' = h" "c = entry" using assms(1) by (simp_all add: clone_def)
    then show ?thesis using assms by (simp add: grows_refl)
  qed
  then show "grows h h'" "c < length h'" by simp_all
qed

lemma cloneEntries_grows:
  "closed h \<Longrightarrow> \<forall>e \<in> set es. e < length h \<Longrightarrow> grows h (cloneEntries h this es)"
proof (induction es arbitrary: h)
  case Nil
  then show ?case by (simp add: grows_refl)
next
  case (Cons entry rest)
  obtain h1 c where cl: "clone h entry this = (h1, c)" by (cases "clone h entry this")
  have e: "entry < length h" using Cons.prems by simp
  note ce = clone_eq[OF cl Cons.prems(1) e]
  define h2 where "h2 = (if isReadOnly h1 this then makeReadOnly h1 c else h1)"
  define h3 where "h3 = pushEntry h2 this c"
  have g12: "grows h1 h2"
    unfolding h2_def using grows_closed[OF ce(1)] by (simp add: grows_makeReadOnly grows_refl)
  have "length h2 = length h1" by (simp add: h2_def makeReadOnly_def)
  then have g23: "grows h2 h3"
    unfolding h3_def using grows_closed[OF g12] ce(2) by (intro grows_pushEntry) simp_all
  have g03: "grows h h3" using ce(1) g12 g23 grows_trans by blast
  have "\<forall>e \<in> set rest. e < length h3"
    using Cons.prems(2) grows_length[OF g03] by auto
  then have "grows h3 (cloneEntries h3 this rest)"
    using Cons.IH grows_closed[OF g03] by blast
  then have "grows h (cloneEntries h3 this rest)" using g03 grows_trans by blast
  then show ?case using cl by (simp add: h2_def h3_def Let_def)
qed

lemma addResolverDirectories_grows:
  "closed h \<Longrightarrow> grows h (addResolverDirectories h this r dirs)"
proof (induction dirs arbitrary: h)
  case Nil
  then show ?case by (simp add: grows_refl)
next
  case (Cons dir rest)
  obtain h1 c where cl: "newVirtualDirectory h this dir (Some r) = (h1, c)"
    by (cases "newVirtualDirectory h this dir (Some r)")
  note ce = newVirtualDirectory_eq[OF cl Cons.prems(1)]
  define h2 where "h2 = (if isReadOnly h1 this then makeReadOnly h1 c else h1)"
  define h3 where "h3 = pushEntry h2 this c"
  have g12: "grows h1 h2"
    unfolding h2_def using grows_closed[OF ce(3)] by (simp add: grows_makeReadOnly grows_refl)
  have "length h2 = length h1" by (simp add: h2_def makeReadOnly_def)
  then have g23: "grows h2 h3"
    unfolding h3_def using grows_closed[OF g12] ce(1,2) by (intro grows_pushEntry) simp_all
  have g03: "grows h h3" using ce(3) g12 g23 grows_trans by blast
  then have "grows h3 (addResolverDirectories h3 this r rest)"
    using Cons.IH grows_closed[OF g03] by blast
  then have "grows h (addResolverDirectories h3 this r rest)" using g03 grows_trans by blast
  then show ?case using cl by (simp add: h2_def h3_def Let_def)
qed

lemma addResolverFiles_grows:
  "closed h \<Longrightarrow> grows h (addResolverFiles h this r files)"
proof (induction files arbitrary: h)
  case Nil
  then show ?case by (simp add: grows_refl)
next
  case (Cons fname rest)
  obtain h1 c where cl: "newVirtualFile h this fname (ContentResolver (getContent r)) = (h1, c)"
    by (cases "newVirtualFile h this fname (ContentResolver (getContent r))")
  note ce = newVirtualFile_eq[OF cl Cons.prems(1)]
  define h2 where "h2 = (if isReadOnly h1 this then makeReadOnly h1 c else h1)"
  define h3 where "h3 = pushEntry h2 this c"
  have g12: "grows h1 h2"
    unfolding h2_def using grows_closed[OF ce(3)] by (simp add: grows_makeReadOnly grows_refl)
  have "length h2 = length h1" by (simp add: h2_def makeReadOnly_def)
  then have g23: "grows h2 h3"
    unfolding h3_def using grows_closed[OF g12] ce(1,2) by (intro grows_pushEntry) simp_all
  have g03: "grows h h3" using ce(3) g12 g23 grows_trans by blast
  then have "grows h3 (addResolverFiles h3 this r rest)"
    using Cons.IH grows_closed[OF g03] by blast
  then have "grows h (addResolverFiles h3 this r rest)" using g03 grows_trans by blast
  then show ?case using cl by (simp add: h2_def h3_def Let_def)
qed

lemma grows_entries_kept:
  assumes "grows h h'" "f_entries (obj_at h d) = Some es" "d < length h"
  shows "\<exists>more. f_entries (obj_at h' d) = Some (es @ more)"
  using grows_stable[OF assms(1,3)] assms(2) by (simp add: stableObj_def)

lemma entries_known: "f_entries (obj_at h d) = Some es \<Longrightarrow> entries h d = (h, es)"
  by (subst entries.simps) simp

lemma pending_inb: "f_entries (obj_at h d) = None \<Longrightarrow> d < length h"
  by (cases "d < length h") (simp_all add: obj_at_def noObject_def)

lemma entries_eq:
  "closed h \<Longrightarrow> entries h this = (h', es)
   \<Longrightarrow> grows h h' \<and> f_entries (obj_at h' this) = Some es"
proof (induction h this arbitrary: h' es rule: entries.induct)
  case (1 h this)
  show ?case
  proof (cases "f_entries (obj_at h this)")
    case (Some es0)
    then have "entries h this = (h, es0)" by (rule entries_known)
    then show ?thesis using "1.prems" Some by (simp add: grows_refl)
  next
    case None
    then have inb: "this < length h" by (rule pending_inb)
    define h1 where "h1 = modify h this
        (\<lambda>ob. ob\<lparr> f_entries := Some [], f_resolver := None, f_shadowRoot := None \<rparr>)"
    have g01: "grows h h1"
      unfolding h1_def
    proof (rule grows_modify[OF "1.prems"(1)])
      have "f_entries (h ! this) = None" using None inb by (simp add: obj_at_def)
      then show "stableObj (h ! this)
          ((h ! this)\<lparr>f_entries := Some [], f_resolver := None, f_shadowRoot := None\<rparr>)"
        by (simp add: stableObj_def)
      have "refsBelow (length h) (h ! this)" using inb "1.prems"(1) by (simp add: closed_refs)
      then show "refsBelow (length h)
          ((h ! this)\<lparr>f_entries := Some [], f_resolver := None, f_shadowRoot := None\<rparr>)"
        by (simp add: refsBelow_iff)
    qed
    have c1: "closed h1" using g01 by (rule grows_closed)
    have e1: "f_entries (obj_at h1 this) = Some []"
      using inb by (simp add: h1_def obj_at_modify)
    have inb1: "this < length h1" using inb by (simp add: h1_def)
    have fin: "grows h1 h3 \<Longrightarrow> grows h h3 \<and> f_entries (obj_at h3 this) = Some (ownEntries h3 this)" for h3
    proof -
      assume g: "grows h1 h3"
      obtain more where "f_entries (obj_at h3 this) = Some ([] @ more)"
        using grows_entries_kept[OF g e1 inb1] by blast
      then show ?thesis using g g01 grows_trans by (auto simp: ownEntries_def)
    qed
    show ?thesis
    proof (cases "f_resolver (obj_at h this)")
      case (Some r)
      obtain files directories where ge: "getEntries r (f_path (obj_at h1 this)) = (files, directories)"
        by (cases "getEntries r (f_path (obj_at h1 this))")
      define h2 where "h2 = addResolverDirectories h1 this r directories"
      define h3 where "h3 = addResolverFiles h2 this r files"
      have res: "h' = h3" "es = ownEntries h3 this"
        using "1.prems"(2) None Some ge
        by (subst (asm) entries.simps, simp add: Let_def h1_def[symmetric] h2_def h3_def)+
      have "grows h1 h2" unfolding h2_def using c1 by (rule addResolverDirectories_grows)
      moreover have "grows h2 h3"
        unfolding h3_def using grows_closed[OF calculation] by (rule addResolverFiles_grows)
      ultimately have "grows h1 h3" by (rule grows_trans)
      then show ?thesis using fin res by simp
    next
      case rNone: None
      show ?thesis
      proof (cases "f_shadowRoot (obj_at h this)")
        case None2: None
        have res: "h' = h1" "es = []"
          using "1.prems"(2) None rNone None2
          by (subst (asm) entries.simps, simp add: Let_def h1_def[symmetric])+
        then show ?thesis using g01 e1 by simp
      next
        case (Some s)
        obtain h2 ses where rec: "entries h1 s = (h2, ses)" by (cases "entries h1 s")
        have ih: "grows h1 h2 \<and> f_entries (obj_at h2 s) = Some ses"
          using "1.IH"[OF None refl refl h1_def rNone Some c1 rec] .
        define h3 where "h3 = cloneEntries h2 this ses"
        have res: "h' = h3" "es = ownEntries h3 this"
          using "1.prems"(2) None rNone Some rec
          by (subst (asm) entries.simps, simp add: Let_def h1_def[symmetric] h3_def)+
        have c2: "closed h2" using ih grows_closed by blast
        have "\<forall>e \<in> set ses. e < length h2"
          using closed_entries[OF c2] ih by blast
        then have "grows h2 h3" unfolding h3_def using c2 by (intro cloneEntries_grows)
        then have "grows h1 h3" using ih grows_trans by blast
        then show ?thesis using fin res by simp
      qed
    qed
  qed
qed

lemma grows_class: "grows h h' \<Longrightarrow> a < length h \<Longrightarrow> classOf h' a = classOf h a"
  using grows_stable[of h h' a] by (simp add: stableObj_def classOf_def)

lemma grows_name: "grows h h' \<Longrightarrow> a < length h \<Longrightarrow> f_name (obj_at h' a) = f_name (obj_at h a)"
  using grows_stable[of h h' a] by (simp add: stableObj_def)

lemma grows_fileSystem:
  "grows h h' \<Longrightarrow> a < length h \<Longrightarrow> f_fileSystem (obj_at h' a) = f_fileSystem (obj_at h a)"
  using grows_stable[of h h' a] by (simp add: stableObj_def)

lemma grows_caseFlag:
  "grows h h' \<Longrightarrow> a < length h \<Longrightarrow>
     f_useCaseSensitiveFileNames (obj_at h' a) = f_useCaseSensitiveFileNames (obj_at h a)"
  using grows_stable[of h h' a] by (simp add: stableObj_def)

lemma grows_currentDirectory:
  "grows h h' \<Longrightarrow> a < length h \<Longrightarrow>
     f_currentDirectory (obj_at h' a) = f_currentDirectory (obj_at h a)"
  using grows_stable[of h h' a] by (simp add: stableObj_def)

lemma grows_target:
  "grows h h' \<Longrightarrow> a < length h \<Longrightarrow> f_target (obj_at h' a) = f_target (obj_at h a)"
  using grows_stable[of h h' a] by (simp add: stableObj_def)

lemma grows_root_kept:
  "grows h h' \<Longrightarrow> a < length h \<Longrightarrow> f_root (obj_at h a) = Some r \<Longrightarrow> f_root (obj_at h' a) = Some r"
  using grows_stable[of h h' a] by (simp add: stableObj_def)

lemma closed_fileSystem_inb:
  "closed h \<Longrightarrow> a < length h \<Longrightarrow> f_fileSystem (obj_at h a) < length h"
  using closed_refs[of h a] by (simp add: refsBelow_iff obj_at_def)

text \<open>The listing of a container, once read, only grows at its end.\<close>

lemma getFileSystemEntries_eq:
  assumes "closed h" "d < length h" "getFileSystemEntries h d = (h', es)"
  shows "grows h h'" "\<forall>e \<in> set es. e < length h'"
    "\<And>h''. grows h' h'' \<Longrightarrow> \<exists>more. getFileSystemEntries h'' d = (h'', es @ more)"
proof -
  have "grows h h' \<and> (\<forall>e \<in> set es. e < length h')
        \<and> (\<forall>h''. grows h' h'' \<longrightarrow> (\<exists>more. getFileSystemEntries h'' d = (h'', es @ more)))"
  proof (cases "isVirtualFileSystem h d")
    case True
    obtain h1 r where r: "root h d = (h1, r)" by (cases "root h d")
    note rt = root_eq[OF r assms(1)]
    have en: "entries h1 r = (h', es)"
      using assms(3) True r by (simp add: getFileSystemEntries_def)
    note ee = entries_eq[OF grows_closed[OF rt(1)] en]
    have g: "grows h h'" using rt(1) ee grows_trans by blast
    have inb: "\<forall>e \<in> set es. e < length h'"
      using closed_entries[OF grows_closed[OF g]] ee by blast
    have "\<exists>more. getFileSystemEntries h'' d = (h'', es @ more)" if g2: "grows h' h''" for h''
    proof -
      have g02: "grows h h''" using g g2 by (rule grows_trans)
      have "isVirtualFileSystem h'' d"
        using True grows_class[OF g02 assms(2)] by (simp add: isVirtualFileSystem_def)
      moreover have "f_root (obj_at h'' d) = Some r"
        using grows_root_kept[OF grows_trans[OF conjunct1[OF ee] g2] _ rt(3)[OF assms(2)]]
          assms(2) grows_length[OF rt(1)] by simp
      moreover obtain more where "f_entries (obj_at h'' r) = Some (es @ more)"
        using grows_entries_kept[OF g2 conjunct2[OF ee]] rt(2) grows_length[OF conjunct1[OF ee]]
        by auto
      ultimately show ?thesis
        by (auto simp: getFileSystemEntries_def root_known entries_known)
    qed
    then show ?thesis using g inb by blast
  next
    case False
    have en: "entries h d = (h', es)"
      using assms(3) False by (simp add: getFileSystemEntries_def)
    note ee = entries_eq[OF assms(1) en]
    have g: "grows h h'" using ee by simp
    have inb: "\<forall>e \<in> set es. e < length h'"
      using closed_entries[OF grows_closed[OF g]] ee by blast
    have "\<exists>more. getFileSystemEntries h'' d = (h'', es @ more)" if g2: "grows h' h''" for h''
    proof -
      have g02: "grows h h''" using g g2 by (rule grows_trans)
      have "\<not> isVirtualFileSystem h'' d"
        using False grows_class[OF g02 assms(2)] by (simp add: isVirtualFileSystem_def)
      moreover obtain more where "f_entries (obj_at h'' d) = Some (es @ more)"
        using grows_entries_kept[OF g2 conjunct2[OF ee]] assms(2) grows_length[OF g] by auto
      ultimately show ?thesis
        by (auto simp: getFileSystemEntries_def entries_known)
    qed
    then show ?thesis using g inb by blast
  qed
  then show "grows h h'" "\<forall>e \<in> set es. e < length h'"
    "\<And>h''. grows h' h'' \<Longrightarrow> \<exists>more. getFileSystemEntries h'' d = (h'', es @ more)"
    by blast+
qed

lemma find_append_Some: "find P xs = Some x \<Longrightarrow> find P (xs @ ys) = Some x"
  by (induction xs) auto

lemma sameName_grows:
  assumes "grows h h'" "closed h" "d < length h" "e < length h"
  shows "sameName env h' (f_fileSystem (obj_at h' d)) (f_name (obj_at h' e)) c
         = sameName env h (f_fileSystem (obj_at h d)) (f_name (obj_at h e)) c"
proof -
  have "f_fileSystem (obj_at h d) < length h"
    using assms by (simp add: closed_fileSystem_inb)
  then show ?thesis
    using assms by (simp add: sameName_def grows_fileSystem grows_name grows_caseFlag)
qed

lemma getFileSystemEntry_grows:
  assumes "closed h" "d < length h" "getFileSystemEntry env h d c = (h', r)"
  shows "grows h h'"
proof -
  obtain h1 es where l: "getFileSystemEntries h d = (h1, es)"
    by (cases "getFileSystemEntries h d")
  then have "h' = h1" using assms(3) by (simp add: getFileSystemEntry_def)
  then show ?thesis using getFileSystemEntries_eq(1)[OF assms(1,2) l] by simp
qed

lemma getFileSystemEntry_stable:
  assumes "closed h" "d < length h" "getFileSystemEntry env h d c = (h', Some e)"
  shows "e < length h'"
    "\<And>h''. grows h' h'' \<Longrightarrow> getFileSystemEntry env h'' d c = (h'', Some e)"
proof -
  obtain h1 es where l: "getFileSystemEntries h d = (h1, es)"
    by (cases "getFileSystemEntries h d")
  note ge = getFileSystemEntries_eq[OF assms(1,2) l]
  have h1: "h' = h1"
    and f: "find (\<lambda>entry. sameName env h' (f_fileSystem (obj_at h' d))
                               (f_name (obj_at h' entry)) c) es = Some e"
    using assms(3) l by (auto simp: getFileSystemEntry_def)
  have "e \<in> set es" using f by (auto simp: find_Some_iff)
  then show "e < length h'" using ge(2) h1 by simp
  fix h'' assume g2: "grows h' h''"
  obtain more where m: "getFileSystemEntries h'' d = (h'', es @ more)"
    using ge(3) g2 h1 by blast
  have c': "closed h'" and d': "d < length h'"
    using ge(1) h1 assms(2) grows_closed grows_length by fastforce+
  have "find (\<lambda>entry. sameName env h'' (f_fileSystem (obj_at h'' d))
                               (f_name (obj_at h'' entry)) c) es
        = find (\<lambda>entry. sameName env h' (f_fileSystem (obj_at h' d))
                               (f_name (obj_at h' entry)) c) es"
    using ge(2) h1 sameName_grows[OF g2 c' d'] by (intro find_cong) auto
  then show "getFileSystemEntry env h'' d c = (h'', Some e)"
    using m f by (simp add: getFileSystemEntry_def find_append_Some)
qed

lemma walk_grows:
  "closed h \<Longrightarrow> d < length h \<Longrightarrow> walk env h d cs = (h', r) \<Longrightarrow> grows h h'"
proof (induction cs arbitrary: h d)
  case Nil
  then show ?case by (simp add: grows_refl)
next
  case (Cons c cs)
  obtain h1 x where l: "getFileSystemEntry env h d c = (h1, x)"
    by (cases "getFileSystemEntry env h d c")
  note g = getFileSystemEntry_grows[OF Cons.prems(1,2) l]
  show ?case
  proof (cases x)
    case None
    then show ?thesis using Cons.prems l g by simp
  next
    case (Some e)
    note st = getFileSystemEntry_stable[OF Cons.prems(1,2) l[unfolded Some]]
    show ?thesis
    proof (cases "isVirtualDirectory h1 e")
      case True
      then have "walk env h1 e cs = (h', r)" using Cons.prems l Some by simp
      then have "grows h1 h'" using Cons.IH grows_closed[OF g] st(1) by blast
      then show ?thesis using g grows_trans by blast
    next
      case False
      then have "h' = h1" using Cons.prems l Some by (auto split: if_splits)
      then show ?thesis using g by simp
    qed
  qed
qed

lemma grows_isVirtualDirectory:
  "grows h h' \<Longrightarrow> a < length h \<Longrightarrow> isVirtualDirectory h' a = isVirtualDirectory h a"
  by (simp add: isVirtualDirectory_def grows_class)

lemma grows_isVirtualFile:
  "grows h h' \<Longrightarrow> a < length h \<Longrightarrow> isVirtualFile h' a = isVirtualFile h a"
  by (simp add: isVirtualFile_def grows_class)

lemma grows_isSymlink:
  "grows h h' \<Longrightarrow> a < length h \<Longrightarrow> isSymlink h' a = isSymlink h a"
  by (simp add: isSymlink_def grows_class)

lemma walk_stable:
  "closed h \<Longrightarrow> d < length h \<Longrightarrow> walk env h d cs = (h', Some e)
   \<Longrightarrow> e < length h' \<and> (\<forall>h''. grows h' h'' \<longrightarrow> walk env h'' d cs = (h'', Some e))"
proof (induction cs arbitrary: h d)
  case Nil
  then show ?case by auto
next
  case (Cons c cs)
  obtain h1 x where l: "getFileSystemEntry env h d c = (h1, x)"
    by (cases "getFileSystemEntry env h d c")
  note g = getFileSystemEntry_grows[OF Cons.prems(1,2) l]
  obtain e1 where x: "x = Some e1"
    using Cons.prems(3) l by (cases x) auto
  note st = getFileSystemEntry_stable[OF Cons.prems(1,2) l[unfolded x]]
  show ?case
  proof (cases "isVirtualDirectory h1 e1")
    case True
    then have w: "walk env h1 e1 cs = (h', Some e)" using Cons.prems l x by simp
    have ih: "e < length h' \<and> (\<forall>h''. grows h' h'' \<longrightarrow> walk env h'' e1 cs = (h'', Some e))"
      using Cons.IH[OF grows_closed[OF g] st(1) w] .
    have g1: "grows h1 h'" using walk_grows[OF grows_closed[OF g] st(1) w] .
    have "walk env h'' d (c # cs) = (h'', Some e)" if g2: "grows h' h''" for h''
    proof -
      have g12: "grows h1 h''" using g1 g2 by (rule grows_trans)
      have "getFileSystemEntry env h'' d c = (h'', Some e1)" using st(2)[OF g12] .
      moreover have "isVirtualDirectory h'' e1"
        using True grows_isVirtualDirectory[OF g12 st(1)] by simp
      ultimately show ?thesis using ih g2 by simp
    qed
    then show ?thesis using ih by blast
  next
    case False
    then have res: "h' = h1" "e = e1" "isVirtualFile h1 e1"
      using Cons.prems l x by (auto split: if_splits)
    have "walk env h'' d (c # cs) = (h'', Some e)" if g2: "grows h' h''" for h''
    proof -
      have "getFileSystemEntry env h'' d c = (h'', Some e1)" using st(2) g2 res by blast
      moreover have "\<not> isVirtualDirectory h'' e1" "isVirtualFile h'' e1"
        using False res grows_isVirtualDirectory[OF g2, of e1] grows_isVirtualFile[OF g2, of e1] st(1)
        by simp_all
      ultimately show ?thesis using res by simp
    qed
    then show ?thesis using st(1) res by blast
  qed
qed

lemma traverse_grows:
  assumes "closed h" "fs < length h" "traverse env h fs p = (h', r)"
  shows "grows h h'"
proof -
  obtain h1 rt where r: "root h fs = (h1, rt)" by (cases "root h fs")
  note re = root_eq[OF r assms(1)]
  have "walk env h1 rt (parse (resolve (f_currentDirectory (obj_at h1 fs)) [p])) = (h', r)"
    using assms(3) r by (simp add: traverse_def)
  then have "grows h1 h'" using walk_grows grows_closed[OF re(1)] re(2) by blast
  then show ?thesis using re(1) grows_trans by blast
qed

lemma traverse_stable:
  assumes "closed h" "fs < length h" "traverse env h fs p = (h', Some e)"
  shows "e < length h'" "\<And>h''. grows h' h'' \<Longrightarrow> traverse env h'' fs p = (h'', Some e)"
proof -
  obtain h1 rt where r: "root h fs = (h1, rt)" by (cases "root h fs")
  note re = root_eq[OF r assms(1)]
  have w: "walk env h1 rt (parse (resolve (f_currentDirectory (obj_at h1 fs)) [p])) = (h', Some e)"
    using assms(3) r by (simp add: traverse_def)
  note ws = walk_stable[OF grows_closed[OF re(1)] re(2) w]
  have g1: "grows h1 h'" using walk_grows[OF grows_closed[OF re(1)] re(2) w] .
  show "e < length h'" using ws by simp
  fix h'' assume g2: "grows h' h''"
  have g12: "grows h1 h''" using g1 g2 by (rule grows_trans)
  have inb: "fs < length h1" using assms(2) grows_length[OF re(1)] by simp
  have "root h'' fs = (h'', rt)"
    using grows_root_kept[OF g12 inb re(3)[OF assms(2)]] by (rule root_known)
  moreover have "f_currentDirectory (obj_at h'' fs) = f_currentDirectory (obj_at h1 fs)"
    using grows_currentDirectory[OF g12 inb] .
  ultimately show "traverse env h'' fs p = (h'', Some e)"
    using ws g2 by (simp add: traverse_def)
qed

lemma finite_linkTargets [simp]: "finite (linkTargets h)"
  by (simp add: linkTargets_def)

lemma isSymlink_linkClass: "isSymlink h a = linkClass (classOf h a)"
  by (simp add: isSymlink_def linkClass_def)

lemma linkTargets_member:
  "a < length h \<Longrightarrow> isSymlink h a \<Longrightarrow> f_target (obj_at h a) \<in> linkTargets h"
  unfolding linkTargets_def isSymlink_linkClass classOf_def obj_at_def by auto

lemma grows_linkTargets:
  assumes "grows h h'"
  shows "linkTargets h' \<subseteq> linkTargets h"
proof
  fix t assume "t \<in> linkTargets h'"
  then obtain a where a: "a < length h'" "linkClass (f_class (h' ! a))" "t = f_target (h' ! a)"
    unfolding linkTargets_def by (auto simp: in_set_conv_nth)
  show "t \<in> linkTargets h"
  proof (cases "a < length h")
    case True
    then have "stableObj (h ! a) (h' ! a)" using assms by (simp add: grows_def ext_def)
    then have "linkClass (f_class (h ! a))" "t = f_target (h ! a)"
      using a by (simp_all add: stableObj_def)
    then show ?thesis using True unfolding linkTargets_def by auto
  next
    case False
    then obtain b where "b < length h" "linkClass (f_class (h ! b))" "f_target (h ! b) = t"
      using assms a unfolding grows_def ext_def by (metis not_le_imp_less)
    then show ?thesis unfolding linkTargets_def by auto
  qed
qed

lemma endless_step:
  assumes "endless env vfs h t" "traverse env h vfs t = (h1, x)"
  shows "\<exists>e. x = Some e \<and> isSymlink h1 e \<and> endless env vfs h1 (f_target (obj_at h1 e))"
proof -
  obtain s' where s': "linkStep env vfs (h, t) s'"
    using assms(1) unfolding endless_def by blast
  then obtain e where e: "x = Some e" "fst s' = h1" "isSymlink h1 e" "snd s' = f_target (obj_at h1 e)"
    using assms(2) unfolding linkStep_def by auto
  have "endless env vfs h1 (f_target (obj_at h1 e))"
    unfolding endless_def
  proof (intro allI impI)
    fix s assume "(linkStep env vfs)\<^sup>*\<^sup>* (h1, f_target (obj_at h1 e)) s"
    moreover have "linkStep env vfs (h, t) (h1, f_target (obj_at h1 e))"
      using s' e by (cases s') simp
    ultimately have "(linkStep env vfs)\<^sup>*\<^sup>* (h, t) s" by simp
    then show "\<exists>s'. linkStep env vfs s s'" using assms(1) unfolding endless_def by blast
  qed
  then show ?thesis using e by blast
qed

lemma deadEnd_step:
  assumes "deadEnd env vfs h t" "traverse env h vfs t = (h1, Some e)"
  shows "isSymlink h1 e \<and> deadEnd env vfs h1 (f_target (obj_at h1 e))"
proof -
  obtain s where s: "(linkStep env vfs)\<^sup>*\<^sup>* (h, t) s" "snd (traverse env (fst s) vfs (snd s)) = None"
    using assms(1) unfolding deadEnd_def by blast
  have ne: "(h, t) \<noteq> s" using s(2) assms(2) by auto
  from s(1) obtain w where w: "linkStep env vfs (h, t) w" "(linkStep env vfs)\<^sup>*\<^sup>* w s"
  proof (cases rule: converse_rtranclpE)
    case base
    then show ?thesis using ne by simp
  next
    case (step y)
    then show ?thesis using that by simp
  qed
  have fw: "fst w = h1" and sy: "isSymlink h1 e" and sw: "snd w = f_target (obj_at h1 e)"
    using w(1) assms(2) unfolding linkStep_def by auto
  have "w = (h1, f_target (obj_at h1 e))" using fw sw by (cases w) simp
  then have "(linkStep env vfs)\<^sup>*\<^sup>* (h1, f_target (obj_at h1 e)) s" using w(2) by simp
  then have "deadEnd env vfs h1 (f_target (obj_at h1 e))"
    unfolding deadEnd_def using s(2) by (intro exI[of _ s]) simp
  then show ?thesis using sy by simp
qed

lemma findTarget_total_aux:
  assumes "finite U" "closed h" "vfs < length h"
    and "\<forall>t \<in> U. \<exists>e \<in> V. \<forall>h'. grows h h' \<longrightarrow> traverse env h' vfs t = (h', Some e)"
  shows "\<exists>h' r. findTarget env h vfs target V = Some (h', r) \<and> grows h h'
           \<and> (\<forall>e. r = Some e \<longrightarrow> e < length h' \<and> \<not> isSymlink h' e)
           \<and> (endless env vfs h target \<longrightarrow> r = None)
           \<and> (deadEnd env vfs h target \<longrightarrow> r = None)"
  using assms
proof (induction "card ((linkTargets h \<union> {target}) - U)" arbitrary: h target U V rule: less_induct)
  case less
  obtain h1 x where tr: "traverse env h vfs target = (h1, x)"
    by (cases "traverse env h vfs target")
  note g = traverse_grows[OF less.prems(2,3) tr]
  show ?case
  proof (cases x)
    case None
    then have "findTarget env h vfs target V = Some (h1, None)"
      using tr by (subst findTarget.simps) simp
    then show ?thesis using g by simp
  next
    case (Some e)
    note st = traverse_stable[OF less.prems(2,3) tr[unfolded Some]]
    show ?thesis
    proof (cases "isSymlink h1 e")
      case False
      then have "findTarget env h vfs target V = Some (h1, Some e)"
        using tr Some by (subst findTarget.simps) simp
      moreover have "\<not> endless env vfs h target"
        using endless_step[OF _ tr] Some False by auto
      moreover have "\<not> deadEnd env vfs h target"
      proof
        assume "deadEnd env vfs h target"
        from deadEnd_step[OF this tr[unfolded Some]] False show False by simp
      qed
      ultimately show ?thesis using g st(1) False by simp
    next
      case True
      show ?thesis
      proof (cases "e \<in> V")
        case inV: True
        then have "findTarget env h vfs target V = Some (h1, None)"
          using tr Some True by (subst findTarget.simps) simp
        then show ?thesis using g by simp
      next
        case False
        define t1 where "t1 = f_target (obj_at h1 e)"
        have unf: "findTarget env h vfs target V = findTarget env h1 vfs t1 (insert e V)"
          using tr Some True False by (subst findTarget.simps) (simp add: t1_def)
        have notU: "target \<notin> U"
        proof
          assume "target \<in> U"
          then obtain e' where e': "e' \<in> V" "traverse env h vfs target = (h, Some e')"
            using less.prems(4) grows_refl[OF less.prems(2)] by blast
          then show False using tr Some False by simp
        qed
        have t1: "t1 \<in> linkTargets h1"
          unfolding t1_def using st(1) True by (rule linkTargets_member)
        have sub: "(linkTargets h1 \<union> {t1}) - insert target U
                   \<subset> (linkTargets h \<union> {target}) - U"
          using t1 grows_linkTargets[OF g] notU by auto
        have dec: "card ((linkTargets h1 \<union> {t1}) - insert target U)
                   < card ((linkTargets h \<union> {target}) - U)"
          using sub by (intro psubset_card_mono) simp_all
        have inv: "\<forall>t \<in> insert target U. \<exists>e' \<in> insert e V.
                     \<forall>h'. grows h1 h' \<longrightarrow> traverse env h' vfs t = (h', Some e')"
        proof
          fix t assume "t \<in> insert target U"
          then consider "t = target" | "t \<in> U" by blast
          then show "\<exists>e' \<in> insert e V. \<forall>h'. grows h1 h' \<longrightarrow> traverse env h' vfs t = (h', Some e')"
          proof cases
            case 1
            then show ?thesis using st(2) by blast
          next
            case 2
            then obtain e' where "e' \<in> V" "\<forall>h'. grows h h' \<longrightarrow> traverse env h' vfs t = (h', Some e')"
              using less.prems(4) by blast
            then show ?thesis using g grows_trans by blast
          qed
        qed
        have "vfs < length h1" using less.prems(3) grows_length[OF g] by simp
        from less.hyps[OF dec _ grows_closed[OF g] this inv] less.prems(1)
        obtain h' r where r: "findTarget env h1 vfs t1 (insert e V) = Some (h', r)" "grows h1 h'"
          "\<forall>e. r = Some e \<longrightarrow> e < length h' \<and> \<not> isSymlink h' e"
          "endless env vfs h1 t1 \<longrightarrow> r = None"
          "deadEnd env vfs h1 t1 \<longrightarrow> r = None"
          by auto
        have en: "endless env vfs h target \<longrightarrow> r = None"
          using endless_step[OF _ tr] r(4) Some by (auto simp: t1_def)
        have gg: "grows h h'" using g r(2) by (rule grows_trans)
        have de: "deadEnd env vfs h target \<longrightarrow> r = None"
        proof
          assume "deadEnd env vfs h target"
          from deadEnd_step[OF this tr[unfolded Some]] r(5) show "r = None" by (simp add: t1_def)
        qed
        have ft: "findTarget env h vfs target V = Some (h', r)" using unf r(1) by simp
        show ?thesis
          by (rule exI[of _ h'], rule exI[of _ r]) (use ft gg r(3) en de in blast)
      qed
    qed
  qed
qed

lemma linkStep_deterministic: "linkStep env vfs s a \<Longrightarrow> linkStep env vfs s b \<Longrightarrow> a = b"
  unfolding linkStep_def by (auto simp: prod_eq_iff)

lemma linkStep_grows:
  assumes "linkStep env vfs s s'" "closed (fst s)" "vfs < length (fst s)"
  shows "grows (fst s) (fst s')"
  using assms traverse_grows unfolding linkStep_def by blast

lemma linkChain_grows:
  "(linkStep env vfs)\<^sup>*\<^sup>* s s' \<Longrightarrow> closed (fst s) \<Longrightarrow> vfs < length (fst s)
   \<Longrightarrow> grows (fst s) (fst s')"
proof (induction rule: rtranclp_induct)
  case base
  then show ?case by (simp add: grows_refl)
next
  case (step y z)
  then have g: "grows (fst s) (fst y)" by simp
  then have "grows (fst y) (fst z)"
    using step.hyps(2) step.prems grows_closed grows_length linkStep_grows
    by (metis less_le_trans)
  then show ?case using g grows_trans by blast
qed

text \<open>A step of the chain is a step from every heap that extends its result.\<close>

lemma linkStep_lift:
  assumes "linkStep env vfs (ha, t) (ha', t')" "closed ha" "vfs < length ha" "grows ha' hb"
  shows "linkStep env vfs (hb, t) (hb, t')"
proof -
  obtain e where e: "traverse env ha vfs t = (ha', Some e)" "isSymlink ha' e"
      "t' = f_target (obj_at ha' e)"
    using assms(1) unfolding linkStep_def by auto
  note st = traverse_stable[OF assms(2,3) e(1)]
  have "traverse env hb vfs t = (hb, Some e)" using st(2) assms(4) by blast
  moreover have "isSymlink hb e" using e(2) grows_isSymlink[OF assms(4) st(1)] by simp
  moreover have "f_target (obj_at hb e) = t'" using e(3) grows_target[OF assms(4) st(1)] by simp
  ultimately show ?thesis unfolding linkStep_def by simp
qed

lemma linkChain_lift:
  "(linkStep env vfs)\<^sup>*\<^sup>* s s' \<Longrightarrow> closed (fst s) \<Longrightarrow> vfs < length (fst s)
   \<Longrightarrow> grows (fst s') hb \<Longrightarrow> (linkStep env vfs)\<^sup>*\<^sup>* (hb, snd s) (hb, snd s')"
proof (induction arbitrary: hb rule: rtranclp_induct)
  case base
  then show ?case by simp
next
  case (step y z)
  have gy: "grows (fst s) (fst y)" using linkChain_grows step.hyps(1) step.prems(1,2) by blast
  have cy: "closed (fst y)" "vfs < length (fst y)"
    using gy step.prems(2) grows_closed grows_length by fastforce+
  have gyz: "grows (fst y) (fst z)" using linkStep_grows[OF step.hyps(2) cy] .
  then have "grows (fst y) hb" using step.prems(3) grows_trans by blast
  then have "(linkStep env vfs)\<^sup>*\<^sup>* (hb, snd s) (hb, snd y)"
    using step.IH step.prems(1,2) by blast
  moreover have "linkStep env vfs (hb, snd y) (hb, snd z)"
    using linkStep_lift[of env vfs "fst y" "snd y" "fst z" "snd z" hb] step.hyps(2) cy step.prems(3)
    by simp
  ultimately show ?case by simp
qed

lemma deterministic_linear:
  assumes det: "\<forall>s a b. R s a \<longrightarrow> R s b \<longrightarrow> a = b"
  shows "R\<^sup>*\<^sup>* a b \<Longrightarrow> R\<^sup>*\<^sup>* a c \<Longrightarrow> R\<^sup>*\<^sup>* b c \<or> R\<^sup>*\<^sup>* c b"
proof (induction rule: rtranclp_induct)
  case base
  then show ?case by simp
next
  case (step y z)
  then consider "R\<^sup>*\<^sup>* y c" | "R\<^sup>*\<^sup>* c y" by blast
  then show ?case
  proof cases
    case 1
    show ?thesis
    proof (cases "y = c")
      case True
      then show ?thesis using step.hyps(2) by auto
    next
      case False
      then obtain w where "R y w" "R\<^sup>*\<^sup>* w c"
        using 1 by (meson converse_rtranclpE)
      then show ?thesis using det step.hyps(2) by blast
    qed
  next
    case 2
    then have "R\<^sup>*\<^sup>* c z" using step.hyps(2) by (rule rtranclp.rtrancl_into_rtrancl)
    then show ?thesis by simp
  qed
qed

lemma loop_successors:
  assumes det: "\<forall>s a b. R s a \<longrightarrow> R s b \<longrightarrow> a = b"
    and loop: "R\<^sup>+\<^sup>+ s0 s0"
  shows "R\<^sup>*\<^sup>* s0 s \<Longrightarrow> R\<^sup>+\<^sup>+ s s0"
proof (induction rule: rtranclp_induct)
  case base
  then show ?case by (rule loop)
next
  case (step y z)
  then obtain w where w: "R y w" "R\<^sup>*\<^sup>* w s0"
    by (meson tranclpD)
  then have "w = z" using det step.hyps(2) by blast
  then have "R\<^sup>*\<^sup>* z s0" using w by simp
  then show ?case using loop by (metis rtranclpD)
qed

lemma cycle_endless:
  assumes "closed h" "vfs < length h"
    and chain: "(linkStep env vfs)\<^sup>*\<^sup>* (h, target) s1"
    and cyc: "(linkStep env vfs)\<^sup>+\<^sup>+ s1 (h2, snd s1)"
  shows "endless env vfs h target"
proof -
  let ?R = "linkStep env vfs"
  have det: "\<forall>s a b. ?R s a \<longrightarrow> ?R s b \<longrightarrow> a = b"
    using linkStep_deterministic by blast
  have g1: "grows h (fst s1)" using linkChain_grows[OF chain] assms(1,2) by simp
  have c1: "closed (fst s1)" "vfs < length (fst s1)"
    using g1 assms(2) grows_closed grows_length by fastforce+
  obtain z where z: "?R s1 z" "?R\<^sup>*\<^sup>* z (h2, snd s1)"
    using cyc by (meson tranclpD)
  have gz: "grows (fst s1) (fst z)" using linkStep_grows[OF z(1) c1] .
  have cz: "closed (fst z)" "vfs < length (fst z)"
    using gz c1 grows_closed grows_length by fastforce+
  have gz2: "grows (fst z) h2" using linkChain_grows[OF z(2) cz] by simp
  have c2: "closed h2" using gz2 by (rule grows_closed)
  have "?R (h2, snd s1) (h2, snd z)"
    using linkStep_lift[of env vfs "fst s1" "snd s1" "fst z" "snd z" h2] z(1) c1 gz2 by simp
  moreover have "?R\<^sup>*\<^sup>* (h2, snd z) (h2, snd s1)"
    using linkChain_lift[OF z(2) cz, of h2] grows_refl[OF c2] by simp
  ultimately have loop: "?R\<^sup>+\<^sup>+ (h2, snd s1) (h2, snd s1)"
    by (rule rtranclp_into_tranclp2)
  have reach: "?R\<^sup>*\<^sup>* (h, target) (h2, snd s1)"
    using chain cyc by (meson rtranclp_trans tranclp_into_rtranclp)
  show ?thesis
    unfolding endless_def
  proof (intro allI impI)
    fix s assume s: "?R\<^sup>*\<^sup>* (h, target) s"
    from deterministic_linear[OF det reach s]
    have "?R\<^sup>+\<^sup>+ s (h2, snd s1)"
    proof
      assume "?R\<^sup>*\<^sup>* (h2, snd s1) s"
      then show ?thesis using loop_successors[OF det loop] by blast
    next
      assume "?R\<^sup>*\<^sup>* s (h2, snd s1)"
      then show ?thesis using loop by (metis rtranclpD)
    qed
    then show "\<exists>s'. ?R s s'" by (meson tranclpD)
  qed
qed

text \<open>
  C7, as amended. In every closed heap and for every target, \<open>findTarget\<close> returns
  (the model's \<open>None\<close>, a call that does not return, is excluded); what it returns is
  never a symlink; it returns no entry when the chain of symlinks ends at a path that
  names nothing (\<open>deadEnd\<close>) and when the chain contains a cycle (\<open>cyclic\<close>); and
  \<open>isBroken\<close> of a symlink with this target is true exactly when the resolution
  yields no entry of the class the symlink links to: no file for a file symlink, no
  directory for a directory symlink.
\<close>

theorem findTarget_terminates:
  assumes "closed h" and "vfs < length h"
  shows "\<exists>h' r. findTarget env h vfs target {} = Some (h', r)
           \<and> (\<forall>e. r = Some e \<longrightarrow> \<not> isSymlink h' e)
           \<and> (deadEnd env vfs h target \<longrightarrow> r = None)
           \<and> (cyclic env vfs h target \<longrightarrow> r = None)
           \<and> (\<forall>link. f_fileSystem (obj_at h link) = vfs \<and> f_target (obj_at h link) = target
                 \<longrightarrow> isBroken env h link = Some (h', noTargetOfClass (classOf h link) h' r))"
proof -
  have "\<forall>t \<in> {}. \<exists>e \<in> {}. \<forall>h'. grows h h' \<longrightarrow> traverse env h' vfs t = (h', Some e)"
    by simp
  from findTarget_total_aux[OF _ assms this, of target]
  obtain h' r where r: "findTarget env h vfs target {} = Some (h', r)"
    "\<forall>e. r = Some e \<longrightarrow> e < length h' \<and> \<not> isSymlink h' e"
    "endless env vfs h target \<longrightarrow> r = None" "deadEnd env vfs h target \<longrightarrow> r = None"
    by auto
  have cyc: "cyclic env vfs h target \<longrightarrow> r = None"
    using r(3) cycle_endless[OF assms] unfolding cyclic_def by blast
  have "isBroken env h link = Some (h', noTargetOfClass (classOf h link) h' r)"
    if "f_fileSystem (obj_at h link) = vfs \<and> f_target (obj_at h link) = target" for link
    using that r(1)
    by (cases r) (auto simp: isBroken_def targetFile_def targetDirectory_def noTargetOfClass_def)
  then show ?thesis using r(1,2,4) cyc by blast
qed

text \<open>The two symlinks of \<open>cyclicLinks\<close>: the resolution returns no entry, and each is broken.\<close>

lemma findTarget_on_cyclicLinks: "map_option snd (findTarget noIntl cyclicLinks 0 ''/b'' {}) = Some None
  \<and> map_option snd (isBroken noIntl cyclicLinks 4) = Some True"
  by code_simp

theorem findTarget_terminates_witness:
  "closed relinkedToFile \<and> 0 < length relinkedToFile
   \<and> (\<exists>h'. findTarget noIntl relinkedToFile 0 ''/d'' {} = Some (h', Some 6)
          \<and> \<not> isSymlink h' 6
          \<and> isBroken noIntl relinkedToFile 5 = Some (h', True))"
proof -
  have c: "closed relinkedToFile" by code_simp
  have l: "0 < length relinkedToFile" by code_simp
  have fs: "f_fileSystem (obj_at relinkedToFile 5) = 0 \<and> f_target (obj_at relinkedToFile 5) = ''/d''"
    by code_simp
  have cl: "classOf relinkedToFile 5 = VirtualDirectorySymlink" by code_simp
  have ev: "map_option snd (findTarget noIntl relinkedToFile 0 ''/d'' {}) = Some (Some 6)"
    by code_simp
  have nd: "\<not> isVirtualDirectory (fst (the (findTarget noIntl relinkedToFile 0 ''/d'' {}))) 6"
    by code_simp
  from findTarget_terminates[OF c l, of noIntl "''/d''"]
  obtain h' r where r: "findTarget noIntl relinkedToFile 0 ''/d'' {} = Some (h', r)"
    "\<forall>e. r = Some e \<longrightarrow> \<not> isSymlink h' e"
    "\<forall>link. f_fileSystem (obj_at relinkedToFile link) = 0 \<and> f_target (obj_at relinkedToFile link) = ''/d''
        \<longrightarrow> isBroken noIntl relinkedToFile link
            = Some (h', noTargetOfClass (classOf relinkedToFile link) h' r)"
    by blast
  have r6: "r = Some 6" using ev r(1) by simp
  have "isBroken noIntl relinkedToFile 5 = Some (h', noTargetOfClass VirtualDirectorySymlink h' r)"
    using r(3) fs cl by metis
  moreover have "noTargetOfClass VirtualDirectorySymlink h' r"
    using nd r(1) r6 by (simp add: noTargetOfClass_def)
  ultimately show ?thesis using c l r(1,2) r6 by auto
qed

text \<open>
  C7 as stated fails in its last part: \<open>isBroken\<close> is not true exactly when the
  resolution yields no entry. The directory symlink \<open>/l\<close> (object 5) has the target
  \<open>/d\<close>, which now names a file (object 6): \<open>findTarget\<close> yields that file, and
  \<open>isBroken\<close> is true.
\<close>

theorem isBroken_with_resolved_target:
  "map_option snd (findTarget noIntl relinkedToFile 0 (f_target (obj_at relinkedToFile 5)) {})
     = Some (Some 6)
   \<and> map_option snd (isBroken noIntl relinkedToFile 5) = Some True"
  by code_simp
section \<open>addFile, then traversePath\<close>

lemma find_append_None: "find P xs = None \<Longrightarrow> find P (xs @ ys) = find P ys"
  by (induction xs) auto

lemma compareStrings_same [simp]: "compareStrings env a a flag = 0"
  by (simp add: compareStrings_def)

lemma plain_not_fileSystem: "classOf h d = VirtualDirectory \<Longrightarrow> \<not> isVirtualFileSystem h d"
  by (simp add: isVirtualFileSystem_def)

lemma plain_lookup:
  assumes "classOf h d = VirtualDirectory"
  shows "getFileSystemEntry env h d c =
           (fst (entries h d),
            find (\<lambda>entry. sameName env (fst (entries h d)) (f_fileSystem (obj_at (fst (entries h d)) d))
                    (f_name (obj_at (fst (entries h d)) entry)) c) (snd (entries h d)))"
  using assms
  by (simp add: getFileSystemEntry_def getFileSystemEntries_def plain_not_fileSystem split_beta)

lemma class_inb: "classOf h d = VirtualDirectory \<Longrightarrow> d < length h"
  by (cases "d < length h") (simp_all add: classOf_def obj_at_def noObject_def)

text \<open>Looking a name up in a plain directory leaves it materialised.\<close>

lemma plain_lookup_materialised:
  assumes "closed h" "classOf h d = VirtualDirectory" "getFileSystemEntry env h d c = (h1, x)"
  shows "grows h h1"
    "\<exists>es. f_entries (obj_at h1 d) = Some es \<and>
          x = find (\<lambda>entry. sameName env h1 (f_fileSystem (obj_at h1 d)) (f_name (obj_at h1 entry)) c) es"
proof -
  obtain h2 es where en: "entries h d = (h2, es)" by (cases "entries h d")
  note ee = entries_eq[OF assms(1) en]
  have "h1 = h2" "x = find (\<lambda>entry. sameName env h2 (f_fileSystem (obj_at h2 d)) (f_name (obj_at h2 entry)) c) es"
    using assms(3) en plain_lookup[OF assms(2), of env c] by auto
  then show "grows h h1"
    "\<exists>es. f_entries (obj_at h1 d) = Some es \<and>
          x = find (\<lambda>entry. sameName env h1 (f_fileSystem (obj_at h1 d)) (f_name (obj_at h1 entry)) c) es"
    using ee by auto
qed

text \<open>
  Pushing a new entry named \<open>c\<close> on a materialised plain directory that has no entry
  of that name: the lookup of \<open>c\<close> then finds the new entry.
\<close>

lemma lookup_after_push:
  assumes c1: "closed h1" and cl: "classOf h1 d = VirtualDirectory"
    and es: "f_entries (obj_at h1 d) = Some es"
    and none: "find (\<lambda>entry. sameName env h1 (f_fileSystem (obj_at h1 d)) (f_name (obj_at h1 entry)) c) es = None"
    and g: "grows h1 h2" and len: "e < length h2" "length h1 \<le> e" and nm: "f_name (obj_at h2 e) = c"
    and es2: "f_entries (obj_at h2 d) = Some es"
  shows "grows h1 (pushEntry h2 d e)"
    "getFileSystemEntry env (pushEntry h2 d e) d c = (pushEntry h2 d e, Some e)"
proof -
  let ?h4 = "pushEntry h2 d e"
  have d1: "d < length h1" using cl by (rule class_inb)
  have d2: "d < length h2" using d1 grows_length[OF g] by simp
  have g24: "grows h2 ?h4" using grows_closed[OF g] len(1) by (rule grows_pushEntry)
  show g14: "grows h1 ?h4" using g g24 by (rule grows_trans)
  have ne: "d \<noteq> e" using d1 len(2) by simp
  have e4: "f_entries (obj_at ?h4 d) = Some (es @ [e])"
    using d2 es2 by (simp add: pushEntry_def obj_at_modify ownEntries_def)
  have cl4: "classOf ?h4 d = VirtualDirectory" using cl grows_class[OF g14 d1] by simp
  have en4: "entries ?h4 d = (?h4, es @ [e])" using e4 by (rule entries_known)
  have nm4: "f_name (obj_at ?h4 e) = c"
    using nm ne by (simp add: pushEntry_def obj_at_modify)
  let ?P1 = "\<lambda>entry. sameName env h1 (f_fileSystem (obj_at h1 d)) (f_name (obj_at h1 entry)) c"
  let ?P4 = "\<lambda>entry. sameName env ?h4 (f_fileSystem (obj_at ?h4 d)) (f_name (obj_at ?h4 entry)) c"
  have inb: "\<forall>x \<in> set es. x < length h1" using closed_entries[OF c1 es] by blast
  have "find ?P4 es = find ?P1 es"
    using inb sameName_grows[OF g14 c1 d1] by (intro find_cong) auto
  then have "find ?P4 (es @ [e]) = find ?P4 [e]" using none by (simp add: find_append_None)
  moreover have "?P4 e" using nm4 by (simp add: sameName_def)
  ultimately have "find ?P4 (es @ [e]) = Some e" by simp
  then show "getFileSystemEntry env ?h4 d c = (?h4, Some e)"
    using plain_lookup[OF cl4, of env c] en4 by simp
qed

lemma VirtualDirectory_addDirectory_found:
  assumes "getFileSystemEntry env h d c = (h1, Some e)"
    "VirtualDirectory_addDirectory env h d c r = Inr (h', res)"
  shows "h' = h1" "res = (if isVirtualDirectory h1 e then Some e else None)"
  using assms by (auto simp: VirtualDirectory_addDirectory_def split: option.splits)

lemma VirtualDirectory_addFile_found:
  assumes "getFileSystemEntry env h d c = (h1, Some e)"
    "VirtualDirectory_addFile env h d c x = Inr (h', res)"
  shows "h' = h1" "res = (if isVirtualFile h1 e then Some e else None)"
  using assms by (auto simp: VirtualDirectory_addFile_def split: option.splits)

lemma VirtualDirectory_addDirectory_new:
  assumes c: "closed h" and cl: "classOf h d = VirtualDirectory"
    and look: "getFileSystemEntry env h d c = (h1, None)"
    and add: "VirtualDirectory_addDirectory env h d c None = Inr (h', res)"
  shows "\<exists>e. res = Some e \<and> grows h h' \<and> e < length h' \<and> classOf h' e = VirtualDirectory
           \<and> f_entries (obj_at h' e) = None \<and> f_resolver (obj_at h' e) = None
           \<and> f_shadowRoot (obj_at h' e) = None
           \<and> getFileSystemEntry env h' d c = (h', Some e)"
proof -
  note pl = plain_lookup_materialised[OF c cl look]
  obtain es where es: "f_entries (obj_at h1 d) = Some es"
    "find (\<lambda>entry. sameName env h1 (f_fileSystem (obj_at h1 d)) (f_name (obj_at h1 entry)) c) es = None"
    using pl(2) by auto
  have c1: "closed h1" using pl(1) by (rule grows_closed)
  have d0: "d < length h" using cl by (rule class_inb)
  have d1: "d < length h1" using d0 grows_length[OF pl(1)] by simp
  have cl1: "classOf h1 d = VirtualDirectory" using cl grows_class[OF pl(1) d0] by simp
  obtain h2 e where n: "newVirtualDirectory h1 d c None = (h2, e)"
    by (cases "newVirtualDirectory h1 d c None")
  note nd = newVirtualDirectory_eq[OF n c1]
  have es2: "f_entries (obj_at h2 d) = Some es"
    using es(1) d1 n by (auto simp: newVirtualDirectory_def alloc_def obj_at_append)
  have en2: "entries h2 d = (h2, es)" using es2 by (rule entries_known)
  have res: "h' = pushEntry h2 d e" "res = (if isVirtualDirectory (pushEntry h2 d e) e then Some e else None)"
    using add look n en2 by (auto simp: VirtualDirectory_addDirectory_def Let_def split: option.splits)
  have len: "e < length h2" "length h1 \<le> e" using nd(1,2) by simp_all
  note lp = lookup_after_push[OF c1 cl1 es nd(3) len nd(6) es2]
  have ne: "d \<noteq> e" using d1 len(2) by simp
  have same: "obj_at (pushEntry h2 d e) e = obj_at h2 e"
    using ne by (simp add: pushEntry_def obj_at_modify)
  have "classOf h' e = VirtualDirectory" "f_entries (obj_at h' e) = None"
    "f_resolver (obj_at h' e) = None" "f_shadowRoot (obj_at h' e) = None"
    using nd same res(1) by (simp_all add: classOf_def)
  moreover have "res = Some e"
    using res(2) nd(4) same by (simp add: isVirtualDirectory_def classOf_def)
  moreover have "grows h h'" using pl(1) lp(1) res(1) grows_trans by blast
  moreover have "e < length h'" using len res(1) by (simp add: pushEntry_def)
  ultimately show ?thesis using lp(2) res(1) by simp
qed

lemma VirtualDirectory_addFile_new:
  assumes c: "closed h" and cl: "classOf h d = VirtualDirectory"
    and look: "getFileSystemEntry env h d c = (h1, None)"
    and add: "VirtualDirectory_addFile env h d c (ContentString x) = Inr (h', res)"
  shows "\<exists>e. res = Some e \<and> grows h h' \<and> e < length h' \<and> classOf h' e = VirtualFile
           \<and> f_content (obj_at h' e) = Some x
           \<and> getFileSystemEntry env h' d c = (h', Some e)"
proof -
  note pl = plain_lookup_materialised[OF c cl look]
  obtain es where es: "f_entries (obj_at h1 d) = Some es"
    "find (\<lambda>entry. sameName env h1 (f_fileSystem (obj_at h1 d)) (f_name (obj_at h1 entry)) c) es = None"
    using pl(2) by auto
  have c1: "closed h1" using pl(1) by (rule grows_closed)
  have d0: "d < length h" using cl by (rule class_inb)
  have d1: "d < length h1" using d0 grows_length[OF pl(1)] by simp
  have cl1: "classOf h1 d = VirtualDirectory" using cl grows_class[OF pl(1) d0] by simp
  obtain h2 e where n: "newVirtualFile h1 d c (ContentString x) = (h2, e)"
    by (cases "newVirtualFile h1 d c (ContentString x)")
  note nd = newVirtualFile_eq[OF n c1]
  have es2: "f_entries (obj_at h2 d) = Some es"
    using es(1) d1 n by (auto simp: newVirtualFile_def alloc_def obj_at_append)
  have en2: "entries h2 d = (h2, es)" using es2 by (rule entries_known)
  have res: "h' = pushEntry h2 d e" "res = (if isVirtualFile (pushEntry h2 d e) e then Some e else None)"
    using add look n en2 by (auto simp: VirtualDirectory_addFile_def Let_def split: option.splits)
  have len: "e < length h2" "length h1 \<le> e" using nd(1,2) by simp_all
  note lp = lookup_after_push[OF c1 cl1 es nd(3) len nd(5) es2]
  have ne: "d \<noteq> e" using d1 len(2) by simp
  have same: "obj_at (pushEntry h2 d e) e = obj_at h2 e"
    using ne by (simp add: pushEntry_def obj_at_modify)
  have "classOf h' e = VirtualFile" "f_content (obj_at h' e) = Some x"
    using nd same res(1) by (simp_all add: classOf_def)
  moreover have "res = Some e"
    using res(2) nd(4) same by (simp add: isVirtualFile_def classOf_def)
  moreover have "grows h h'" using pl(1) lp(1) res(1) grows_trans by blast
  moreover have "e < length h'" using len res(1) by (simp add: pushEntry_def)
  ultimately show ?thesis using lp(2) res(1) by simp
qed

lemma fresh_directory_lookup:
  assumes "f_entries (obj_at h e) = None" "f_resolver (obj_at h e) = None"
    "f_shadowRoot (obj_at h e) = None" "classOf h e = VirtualDirectory"
  shows "snd (getFileSystemEntry env h e c) = None"
proof -
  have "snd (entries h e) = []"
    using assms(1-3) by (subst entries.simps) (simp add: Let_def)
  then show ?thesis
    using plain_lookup[OF assms(4), of env c] by simp
qed

lemma fresh_directory_path:
  assumes "f_entries (obj_at h e) = None" "f_resolver (obj_at h e) = None"
    "f_shadowRoot (obj_at h e) = None" "classOf h e = VirtualDirectory"
  shows "plainPath env h e cs" "snd (walk env h e (cs @ [name])) = None"
proof -
  have l: "snd (getFileSystemEntry env h e c) = None" for c
    using assms by (rule fresh_directory_lookup)
  show "plainPath env h e cs"
  proof (cases cs)
    case Nil
    then show ?thesis using assms(4) by simp
  next
    case (Cons c cs')
    then show ?thesis using assms(4) l[of c] by (cases "getFileSystemEntry env h e c") simp
  qed
  obtain c cs' where "cs @ [name] = c # cs'" by (cases cs) auto
  then show "snd (walk env h e (cs @ [name])) = None"
    using l[of c] by (cases "getFileSystemEntry env h e c") simp
qed

lemma addDirectories_then_walk:
  "closed h \<Longrightarrow> plainPath env h d0 comps
   \<Longrightarrow> addDirectories env h d0 None comps = Some (Inr (h2, Some d))
   \<Longrightarrow> snd (walk env h d0 (comps @ [name])) = None
   \<Longrightarrow> addFile env h2 d name (ContentString x) = Some (Inr (h', Some f))
   \<Longrightarrow> grows h h' \<and> walk env h' d0 (comps @ [name]) = (h', Some f)
       \<and> classOf h' f = VirtualFile \<and> f_content (obj_at h' f) = Some x"
proof (induction comps arbitrary: h d0)
  case Nil
  have cl: "classOf h d0 = VirtualDirectory" using Nil.prems(2) by simp
  have eq: "h2 = h" "d = d0" using Nil.prems(3) by simp_all
  have add: "VirtualDirectory_addFile env h d0 name (ContentString x) = Inr (h', Some f)"
    using Nil.prems(5) cl eq by (simp add: addFile_def)
  obtain h1 y where look: "getFileSystemEntry env h d0 name = (h1, y)"
    by (cases "getFileSystemEntry env h d0 name")
  have "y = None"
  proof (cases y)
    case (Some e)
    then have "isVirtualFile h1 e"
      using VirtualDirectory_addFile_found(2)[OF look[unfolded Some] add] by (simp split: if_splits)
    then show ?thesis using Nil.prems(4) look Some by (simp split: if_splits)
  qed simp
  from VirtualDirectory_addFile_new[OF Nil.prems(1) cl look[unfolded this] add]
  have n: "grows h h'" "f < length h'" "classOf h' f = VirtualFile"
    "f_content (obj_at h' f) = Some x" "getFileSystemEntry env h' d0 name = (h', Some f)"
    by auto
  have "isVirtualFile h' f" "\<not> isVirtualDirectory h' f"
    using n(3) by (simp_all add: isVirtualFile_def isVirtualDirectory_def)
  then have "walk env h' d0 [name] = (h', Some f)" using n(5) by simp
  then show ?case using n by simp
next
  case (Cons c cs)
  have cl: "classOf h d0 = VirtualDirectory" using Cons.prems(2) by simp
  have d0: "d0 < length h" using cl by (rule class_inb)
  obtain h1 y where look: "getFileSystemEntry env h d0 c = (h1, y)"
    by (cases "getFileSystemEntry env h d0 c")
  have disp: "addDirectory env h d0 c None = Some (VirtualDirectory_addDirectory env h d0 c None)"
    using cl by (simp add: addDirectory_def)
  obtain h1' e1 where add: "VirtualDirectory_addDirectory env h d0 c None = Inr (h1', Some e1)"
    and rest: "addDirectories env h1' e1 None cs = Some (Inr (h2, Some d))"
    using Cons.prems(3) disp
    by (auto split: sum.splits option.splits prod.splits)
  have step: "grows h h1' \<and> isVirtualDirectory h1' e1 \<and> e1 < length h1'
      \<and> getFileSystemEntry env h1' d0 c = (h1', Some e1)
      \<and> plainPath env h1' e1 cs \<and> snd (walk env h1' e1 (cs @ [name])) = None"
  proof (cases y)
    case (Some e)
    note f = VirtualDirectory_addDirectory_found[OF look[unfolded Some] add]
    have e: "h1' = h1" "e1 = e" "isVirtualDirectory h1 e"
      using f by (simp_all split: if_splits)
    note g = getFileSystemEntry_grows[OF Cons.prems(1) d0 look]
    note st = getFileSystemEntry_stable[OF Cons.prems(1) d0 look[unfolded Some]]
    have "getFileSystemEntry env h1 d0 c = (h1, Some e)"
      using st(2)[OF grows_refl[OF grows_closed[OF g]]] .
    moreover have "plainPath env h1 e cs" using Cons.prems(2) look Some by simp
    moreover have "snd (walk env h1 e (cs @ [name])) = None"
      using Cons.prems(4) look Some e(3) by simp
    ultimately show ?thesis using e g st(1) by simp
  next
    case None
    from VirtualDirectory_addDirectory_new[OF Cons.prems(1) cl look[unfolded None] add]
    have n: "grows h h1'" "e1 < length h1'" "classOf h1' e1 = VirtualDirectory"
      "f_entries (obj_at h1' e1) = None" "f_resolver (obj_at h1' e1) = None"
      "f_shadowRoot (obj_at h1' e1) = None" "getFileSystemEntry env h1' d0 c = (h1', Some e1)"
      by auto
    note fr = fresh_directory_path(1)[OF n(4,5,6,3), of env cs]
      fresh_directory_path(2)[OF n(4,5,6,3), of env cs name]
    show ?thesis using n fr by (simp add: isVirtualDirectory_def)
  qed
  have c1: "closed h1'" using step grows_closed by blast
  from Cons.IH[OF c1 _ rest _ Cons.prems(5)] step
  have ih: "grows h1' h'" "walk env h' e1 (cs @ [name]) = (h', Some f)"
    "classOf h' f = VirtualFile" "f_content (obj_at h' f) = Some x"
    by simp_all
  have d1: "d0 < length h1'" using d0 step grows_length by fastforce
  have "getFileSystemEntry env h' d0 c = (h', Some e1)"
    using getFileSystemEntry_stable(2)[OF c1 d1 _ ih(1)] step by blast
  moreover have "isVirtualDirectory h' e1"
    using step grows_isVirtualDirectory[OF ih(1)] by simp
  ultimately have "walk env h' d0 ((c # cs) @ [name]) = (h', Some f)"
    using ih(2) by simp
  moreover have "grows h h'" using step ih(1) grows_trans by blast
  ultimately show ?case using ih(3,4) by simp
qed

text \<open>
  C8, as amended. On a closed heap, let \<open>p\<close> be a path that names no entry before
  the call, that leads through plain directories only, and whose resolved components
  are those of its resolved directory followed by \<open>basename(p)\<close>. When
  \<open>addFile(p, x)\<close> returns a file, \<open>traversePath(p)\<close> on the heap it returns with
  yields that file, an instance of \<open>VirtualFile\<close>, and its content getter yields \<open>x\<close>.
\<close>

theorem addFile_then_traversePath:
  assumes c: "closed h" and fs: "fs < length h"
    and path: "parse (resolve (f_currentDirectory (obj_at h fs)) [p])
               = parse (resolve (f_currentDirectory (obj_at h fs))
                          [dirname (resolve (f_currentDirectory (obj_at h fs)) [p])])
                 @ [basename p]"
    and plain: "plainPath env (fst (root h fs)) (snd (root h fs))
                  (parse (resolve (f_currentDirectory (obj_at h fs))
                            [dirname (resolve (f_currentDirectory (obj_at h fs)) [p])]))"
    and fresh: "snd (traverse env h fs p) = None"
    and added: "resultValue (VirtualFileSystem_addFile env h fs p (ContentString x)) = Some (Some f)"
  shows "traversePath env (resultHeap (VirtualFileSystem_addFile env h fs p (ContentString x))) fs p False
           = Some (resultHeap (VirtualFileSystem_addFile env h fs p (ContentString x)), Some f)
         \<and> isVirtualFile (resultHeap (VirtualFileSystem_addFile env h fs p (ContentString x))) f
         \<and> content env (resultHeap (VirtualFileSystem_addFile env h fs p (ContentString x))) f
           = Some (resultHeap (VirtualFileSystem_addFile env h fs p (ContentString x)), Some x)"
proof -
  define cwd where "cwd = f_currentDirectory (obj_at h fs)"
  define comps where "comps = parse (resolve cwd [dirname (resolve cwd [p])])"
  obtain h' where res: "VirtualFileSystem_addFile env h fs p (ContentString x) = Some (Inr (h', Some f))"
    using added by (auto simp: resultValue_def split: option.splits sum.splits)
  then have rh: "resultHeap (VirtualFileSystem_addFile env h fs p (ContentString x)) = h'"
    by (simp add: resultHeap_def)
  obtain h2 d where ad: "VirtualFileSystem_addDirectory env h fs (dirname (resolve cwd [p])) None
                           = Some (Inr (h2, Some d))"
    and af: "addFile env h2 d (basename p) (ContentString x) = Some (Inr (h', Some f))"
    using res unfolding VirtualFileSystem_addFile_def cwd_def
    by (auto simp: Let_def split: option.splits sum.splits prod.splits)
  obtain h1 r where r: "root h fs = (h1, r)" by (cases "root h fs")
  note rt = root_eq[OF r c]
  have ads: "addDirectories env h1 r None comps = Some (Inr (h2, Some d))"
    using ad r unfolding VirtualFileSystem_addDirectory_def comps_def cwd_def
    by (auto simp: Let_def split: option.splits)
  have fs1: "fs < length h1" using fs grows_length[OF rt(1)] by simp
  have cwd1: "f_currentDirectory (obj_at h1 fs) = cwd"
    using grows_currentDirectory[OF rt(1) fs] by (simp add: cwd_def)
  have comps': "parse (resolve cwd [p]) = comps @ [basename p]"
    using path by (simp add: comps_def cwd_def)
  have w0: "snd (walk env h1 r (comps @ [basename p])) = None"
    using fresh r cwd1 comps' by (simp add: traverse_def)
  have pl: "plainPath env h1 r comps"
    using plain r by (simp add: comps_def cwd_def)
  from addDirectories_then_walk[OF grows_closed[OF rt(1)] pl ads w0 af]
  have m: "grows h1 h'" "walk env h' r (comps @ [basename p]) = (h', Some f)"
    "classOf h' f = VirtualFile" "f_content (obj_at h' f) = Some x"
    by simp_all
  have "root h' fs = (h', r)"
    using grows_root_kept[OF m(1) fs1 rt(3)[OF fs]] by (rule root_known)
  moreover have "f_currentDirectory (obj_at h' fs) = cwd"
    using grows_currentDirectory[OF m(1) fs1] cwd1 by simp
  ultimately have "traverse env h' fs p = (h', Some f)"
    using m(2) comps' by (simp add: traverse_def)
  then have t: "traversePath env h' fs p False = Some (h', Some f)"
    by (simp add: traversePath_def)
  have "VirtualFile_content h' f = (h', Some x)"
    using m(4) by (subst VirtualFile_content.simps) simp
  then have "content env h' f = Some (h', Some x)"
    using m(3) by (simp add: content_def)
  then show ?thesis using t m(3) rh by (simp add: isVirtualFile_def)
qed

theorem addFile_then_traversePath_witness:
  "closed emptyFileSystem \<and> 0 < length emptyFileSystem
   \<and> parse (resolve (f_currentDirectory (obj_at emptyFileSystem 0)) [''/a/b.ts''])
       = parse (resolve (f_currentDirectory (obj_at emptyFileSystem 0))
                  [dirname (resolve (f_currentDirectory (obj_at emptyFileSystem 0)) [''/a/b.ts''])])
         @ [basename ''/a/b.ts'']
   \<and> plainPath noIntl (fst (root emptyFileSystem 0)) (snd (root emptyFileSystem 0))
         (parse (resolve (f_currentDirectory (obj_at emptyFileSystem 0))
                   [dirname (resolve (f_currentDirectory (obj_at emptyFileSystem 0)) [''/a/b.ts''])]))
   \<and> snd (traverse noIntl emptyFileSystem 0 ''/a/b.ts'') = None
   \<and> resultValue (VirtualFileSystem_addFile noIntl emptyFileSystem 0 ''/a/b.ts'' (ContentString ''X''))
       = Some (Some 4)
   \<and> traversePath noIntl oneFile 0 ''/a/b.ts'' False = Some (oneFile, Some 4)
   \<and> isVirtualFile oneFile 4
   \<and> content noIntl oneFile 4 = Some (oneFile, Some ''X'')"
proof -
  have 1: "closed emptyFileSystem" by code_simp
  have 2: "0 < length emptyFileSystem" by code_simp
  have 3: "parse (resolve (f_currentDirectory (obj_at emptyFileSystem 0)) [''/a/b.ts''])
       = parse (resolve (f_currentDirectory (obj_at emptyFileSystem 0))
                  [dirname (resolve (f_currentDirectory (obj_at emptyFileSystem 0)) [''/a/b.ts''])])
         @ [basename ''/a/b.ts'']" by code_simp
  have 4: "plainPath noIntl (fst (root emptyFileSystem 0)) (snd (root emptyFileSystem 0))
         (parse (resolve (f_currentDirectory (obj_at emptyFileSystem 0))
                   [dirname (resolve (f_currentDirectory (obj_at emptyFileSystem 0)) [''/a/b.ts''])]))"
    by code_simp
  have 5: "snd (traverse noIntl emptyFileSystem 0 ''/a/b.ts'') = None" by code_simp
  have 6: "resultValue (VirtualFileSystem_addFile noIntl emptyFileSystem 0 ''/a/b.ts'' (ContentString ''X''))
       = Some (Some 4)" by code_simp
  from addFile_then_traversePath[OF 1 2 3 4 5 6] 1 2 3 4 5 6 show ?thesis
    unfolding oneFile_def by blast
qed

text \<open>
  C8 as stated fails: \<open>addFile\<close> is a creation that keeps what exists. On
  \<open>oneFile\<close>, where \<open>/a/b.ts\<close> has the content \<open>X\<close>, \<open>addFile("/a/b.ts", "Y")\<close>
  returns the existing file (object 4), and the content read back is \<open>X\<close>.
\<close>

theorem addFile_on_existing_file:
  "resultValue (VirtualFileSystem_addFile noIntl oneFile 0 ''/a/b.ts'' (ContentString ''Y''))
     = Some (Some 4)
   \<and> readFile (resultHeap (VirtualFileSystem_addFile noIntl oneFile 0 ''/a/b.ts'' (ContentString ''Y'')))
        0 ''/a/b.ts'' = Some ''X''"
  by code_simp

text \<open>
  Two more paths on which \<open>addFile\<close> returns a file that \<open>traversePath\<close> does not
  find: \<open>/a/..\<close>, whose basename \<open>..\<close> is no component of the resolved path (the
  file is named \<open>..\<close>, the path names the directory \<open>/\<close>), and a path through the
  directory symlink \<open>/l\<close>, where the file is added to the target \<open>/d\<close> while the
  traversal looks into the symlink.
\<close>

lemma addFile_with_dots:
  "resultValue (VirtualFileSystem_addFile noIntl emptyFileSystem 0 ''/a/..'' (ContentString ''Y''))
     = Some (Some 3)
   \<and> f_name (obj_at (resultHeap (VirtualFileSystem_addFile noIntl emptyFileSystem 0 ''/a/..''
                                    (ContentString ''Y''))) 3) = ''..''
   \<and> snd (traverse noIntl (resultHeap (VirtualFileSystem_addFile noIntl emptyFileSystem 0 ''/a/..''
                                         (ContentString ''Y''))) 0 ''/a/..'') = Some 2"
  by code_simp

lemma addFile_through_directory_symlink:
  "resultValue (VirtualFileSystem_addFile noIntl linkedDirectory 0 ''/l/g.ts'' (ContentString ''Y''))
     = Some (Some 6)
   \<and> snd (traverse noIntl (resultHeap (VirtualFileSystem_addFile noIntl linkedDirectory 0 ''/l/g.ts''
                                         (ContentString ''Y''))) 0 ''/l/g.ts'') = None
   \<and> snd (traverse noIntl (resultHeap (VirtualFileSystem_addFile noIntl linkedDirectory 0 ''/l/g.ts''
                                         (ContentString ''Y''))) 0 ''/d/g.ts'') = Some 6"
  by code_simp
section \<open>traversePath stops at a file\<close>

lemma directory_not_file: "isVirtualDirectory h a \<Longrightarrow> \<not> isVirtualFile h a"
  by (auto simp: isVirtualDirectory_def isVirtualFile_def)

lemma walk_append_directory:
  "walk env h d pre = (h1, Some d1) \<Longrightarrow> isVirtualDirectory h1 d1
   \<Longrightarrow> walk env h d (pre @ ys) = walk env h1 d1 ys"
proof (induction pre arbitrary: h d)
  case Nil
  then show ?case by simp
next
  case (Cons c cs)
  obtain h2 entry where look: "getFileSystemEntry env h d c = (h2, entry)"
    by (cases "getFileSystemEntry env h d c")
  show ?case
  proof (cases entry)
    case None
    with Cons.prems look show ?thesis by simp
  next
    case (Some e)
    show ?thesis
    proof (cases "isVirtualDirectory h2 e")
      case True
      with Cons look Some show ?thesis by simp
    next
      case False
      with Cons.prems look Some show ?thesis
        by (auto simp: directory_not_file split: if_splits)
    qed
  qed
qed

text \<open>
  C10, as amended. When the components of the path, walked from the root, reach a file
  at a component that is followed by further components, \<open>traversePath\<close> ignores
  the rest and returns at that file: \<open>pre\<close> are the components that lead to a
  directory, \<open>component\<close> names a file in it, and \<open>rest\<close> is whatever follows.
  Without \<open>followSymlinks\<close>, or when the file is no symlink, it returns that file;
  with \<open>followSymlinks\<close> and a file symlink it returns what \<open>findTarget\<close> yields
  for the target of the symlink, an entry or none.
\<close>

theorem traversePath_file_before_last_component:
  assumes comps: "parse (resolve (f_currentDirectory (obj_at (fst (root h this)) this)) [path])
                  = pre @ component # rest"
    and pre: "snd (walk env (fst (root h this)) (snd (root h this)) pre) = Some directory"
    and dir: "isVirtualDirectory (fst (walk env (fst (root h this)) (snd (root h this)) pre)) directory"
    and look: "snd (getFileSystemEntry env
                 (fst (walk env (fst (root h this)) (snd (root h this)) pre)) directory component)
               = Some file"
    and isfile: "isVirtualFile (fst (getFileSystemEntry env
                 (fst (walk env (fst (root h this)) (snd (root h this)) pre)) directory component)) file"
  shows "traversePath env h this path follow
         = (if follow \<and> isSymlink (fst (getFileSystemEntry env
                   (fst (walk env (fst (root h this)) (snd (root h this)) pre)) directory component))
                 file
            then findTarget env
                   (fst (getFileSystemEntry env
                      (fst (walk env (fst (root h this)) (snd (root h this)) pre)) directory component))
                   this
                   (f_target (obj_at (fst (getFileSystemEntry env
                      (fst (walk env (fst (root h this)) (snd (root h this)) pre)) directory component))
                      file))
                   {}
            else Some (fst (getFileSystemEntry env
                   (fst (walk env (fst (root h this)) (snd (root h this)) pre)) directory component),
                 Some file))"
proof -
  obtain h0 r where r: "root h this = (h0, r)"
    by (cases "root h this")
  obtain h1 where w: "walk env h0 r pre = (h1, Some directory)"
    using pre r by (cases "walk env h0 r pre") simp
  obtain h2 where g: "getFileSystemEntry env h1 directory component = (h2, Some file)"
    using look r w by (cases "getFileSystemEntry env h1 directory component") simp
  have d1: "isVirtualDirectory h1 directory"
    using dir r w by simp
  have f2: "isVirtualFile h2 file"
    using isfile r w g by simp
  have "walk env h0 r (pre @ component # rest) = walk env h1 directory (component # rest)"
    using w d1 by (rule walk_append_directory)
  also have "\<dots> = (h2, Some file)"
  proof -
    have "\<not> isVirtualDirectory h2 file"
      using f2 directory_not_file by blast
    then show ?thesis
      using g f2 by simp
  qed
  finally have "traverse env h this path = (h2, Some file)"
    using r comps by (simp add: traverse_def)
  then show ?thesis
    using r w g by (simp add: traversePath_def getTarget_def)
qed

theorem traversePath_file_before_last_component_witness:
  "parse (resolve (f_currentDirectory (obj_at (fst (root oneFile 0)) 0)) [''/a/b.ts/x/y''])
     = [''/'', ''a''] @ ''b.ts'' # [''x'', ''y'']
   \<and> snd (walk noIntl (fst (root oneFile 0)) (snd (root oneFile 0)) [''/'', ''a'']) = Some 3
   \<and> isVirtualDirectory (fst (walk noIntl (fst (root oneFile 0)) (snd (root oneFile 0)) [''/'', ''a''])) 3
   \<and> snd (getFileSystemEntry noIntl
             (fst (walk noIntl (fst (root oneFile 0)) (snd (root oneFile 0)) [''/'', ''a''])) 3 ''b.ts'')
       = Some 4
   \<and> isVirtualFile (fst (getFileSystemEntry noIntl
             (fst (walk noIntl (fst (root oneFile 0)) (snd (root oneFile 0)) [''/'', ''a''])) 3 ''b.ts'')) 4
   \<and> traversePath noIntl oneFile 0 ''/a/b.ts/x/y'' True
       = Some (fst (getFileSystemEntry noIntl
                   (fst (walk noIntl (fst (root oneFile 0)) (snd (root oneFile 0)) [''/'', ''a''])) 3 ''b.ts''),
               Some 4)"
proof -
  have 1: "parse (resolve (f_currentDirectory (obj_at (fst (root oneFile 0)) 0)) [''/a/b.ts/x/y''])
     = [''/'', ''a''] @ ''b.ts'' # [''x'', ''y'']"
    by code_simp
  have 2: "snd (walk noIntl (fst (root oneFile 0)) (snd (root oneFile 0)) [''/'', ''a'']) = Some 3"
    by code_simp
  have 3: "isVirtualDirectory (fst (walk noIntl (fst (root oneFile 0)) (snd (root oneFile 0)) [''/'', ''a''])) 3"
    by code_simp
  have 4: "snd (getFileSystemEntry noIntl
             (fst (walk noIntl (fst (root oneFile 0)) (snd (root oneFile 0)) [''/'', ''a''])) 3 ''b.ts'')
       = Some 4"
    by code_simp
  have 5: "isVirtualFile (fst (getFileSystemEntry noIntl
             (fst (walk noIntl (fst (root oneFile 0)) (snd (root oneFile 0)) [''/'', ''a''])) 3 ''b.ts'')) 4"
    by code_simp
  have 6: "\<not> isSymlink (fst (getFileSystemEntry noIntl
             (fst (walk noIntl (fst (root oneFile 0)) (snd (root oneFile 0)) [''/'', ''a''])) 3 ''b.ts'')) 4"
    by code_simp
  from traversePath_file_before_last_component[OF 1 2 3 4 5, of True] 6
  have "traversePath noIntl oneFile 0 ''/a/b.ts/x/y'' True
       = Some (fst (getFileSystemEntry noIntl
                   (fst (walk noIntl (fst (root oneFile 0)) (snd (root oneFile 0)) [''/'', ''a''])) 3 ''b.ts''),
               Some 4)"
    by simp
  then show ?thesis using 1 2 3 4 5 by blast
qed

text \<open>
  C10 as stated fails when \<open>followSymlinks\<close> is set and the file is a symlink. On
  \<open>cyclicLinks\<close> the path \<open>/a/x/y\<close> reaches the file symlink \<open>/a\<close> (object 4) at
  its component \<open>a\<close>, which two more components follow; without \<open>followSymlinks\<close>
  the traversal returns that symlink, with it the traversal returns no entry, since the
  target of \<open>/a\<close> leads back to \<open>/a\<close>.
\<close>

theorem traversePath_follow_at_file_symlink:
  "parse (resolve (f_currentDirectory (obj_at (fst (root cyclicLinks 0)) 0)) [''/a/x/y''])
     = [''/''] @ ''a'' # [''x'', ''y'']
   \<and> snd (walk noIntl (fst (root cyclicLinks 0)) (snd (root cyclicLinks 0)) [''/'']) = Some 2
   \<and> isVirtualDirectory (fst (walk noIntl (fst (root cyclicLinks 0)) (snd (root cyclicLinks 0)) [''/''])) 2
   \<and> snd (getFileSystemEntry noIntl
             (fst (walk noIntl (fst (root cyclicLinks 0)) (snd (root cyclicLinks 0)) [''/''])) 2 ''a'')
       = Some 4
   \<and> isVirtualFile (fst (getFileSystemEntry noIntl
             (fst (walk noIntl (fst (root cyclicLinks 0)) (snd (root cyclicLinks 0)) [''/''])) 2 ''a'')) 4
   \<and> map_option snd (traversePath noIntl cyclicLinks 0 ''/a/x/y'' False) = Some (Some 4)
   \<and> map_option snd (traversePath noIntl cyclicLinks 0 ''/a/x/y'' True) = Some None"
  by code_simp

section \<open>normalize is idempotent on absolute paths\<close>

subsection \<open>split and join\<close>

lemma split_nonempty [simp]: "split sep s \<noteq> []"
  by (induction s) (auto split: list.splits)

lemma split_no_sep: "x \<in> set (split sep s) \<Longrightarrow> sep \<notin> set x"
proof (induction s arbitrary: x)
  case Nil
  then show ?case by simp
next
  case (Cons c cs)
  show ?case
  proof (cases "c = sep")
    case True
    then show ?thesis using Cons by auto
  next
    case False
    obtain p ps where sp: "split sep cs = p # ps"
      by (cases "split sep cs") simp_all
    then have "x = c # p \<or> x \<in> set ps" using Cons.prems False by simp
    then show ?thesis using Cons.IH sp False by auto
  qed
qed

lemma split_chars: "x \<in> set (split sep s) \<Longrightarrow> set x \<subseteq> set s"
proof (induction s arbitrary: x)
  case Nil
  then show ?case by simp
next
  case (Cons c cs)
  show ?case
  proof (cases "c = sep")
    case True
    then have "x = [] \<or> x \<in> set (split sep cs)" using Cons.prems by auto
    then show ?thesis using Cons.IH by auto
  next
    case False
    obtain p ps where sp: "split sep cs = p # ps"
      by (cases "split sep cs") simp_all
    have p: "set p \<subseteq> set cs" using Cons.IH[of p] sp by simp
    have "x = c # p \<or> x \<in> set ps" using Cons.prems False sp by simp
    then show ?thesis
    proof
      assume "x = c # p"
      then show ?thesis using p by auto
    next
      assume "x \<in> set ps"
      then have "set x \<subseteq> set cs" using Cons.IH[of x] sp by simp
      then show ?thesis by auto
    qed
  qed
qed

lemma split_no_sep_string: "sep \<notin> set x \<Longrightarrow> split sep x = [x]"
  by (induction x) auto

lemma split_append:
  "sep \<notin> set x \<Longrightarrow> split sep (x @ sep # s) = x # split sep s"
  by (induction x) auto

lemma split_join:
  "ps \<noteq> [] \<Longrightarrow> \<forall>x \<in> set ps. sep \<notin> set x \<Longrightarrow> split sep (join [sep] ps) = ps"
proof (induction ps)
  case Nil
  then show ?case by simp
next
  case (Cons x xs)
  show ?case
  proof (cases xs)
    case Nil
    then show ?thesis using Cons.prems by (simp add: split_no_sep_string)
  next
    case (Cons y ys)
    then have "split sep (join [sep] xs) = xs" using Cons.IH Cons.prems by simp
    then show ?thesis using Cons Cons.prems by (simp add: split_append)
  qed
qed

lemma split_join_slash:
  "ps \<noteq> [] \<Longrightarrow> \<forall>x \<in> set ps. sep \<notin> set x \<Longrightarrow> split sep (join [sep] ps @ [sep]) = ps @ [[]]"
proof (induction ps)
  case Nil
  then show ?case by simp
next
  case (Cons x xs)
  show ?case
  proof (cases xs)
    case Nil
    then show ?thesis using Cons.prems split_append[of sep x "[]"] by simp
  next
    case (Cons y ys)
    then have "split sep (join [sep] xs @ [sep]) = xs @ [[]]" using Cons.IH Cons.prems by simp
    then show ?thesis using Cons Cons.prems by (simp add: split_append)
  qed
qed

lemma join_chars: "set (join [sep] ps) \<subseteq> insert sep (\<Union> (set ` set ps))"
proof (induction ps)
  case Nil
  then show ?case by simp
next
  case (Cons x xs)
  then show ?case by (cases xs) auto
qed

lemma normalizeStep_subset: "set (normalizeStep acc part) \<subseteq> insert part (set acc)"
  by (auto simp: normalizeStep_def dest: in_set_butlastD)

lemma foldl_normalizeStep_subset: "set (foldl normalizeStep acc xs) \<subseteq> set acc \<union> set xs"
proof (induction xs arbitrary: acc)
  case Nil
  then show ?case by simp
next
  case (Cons x xs)
  have "set (foldl normalizeStep (normalizeStep acc x) xs) \<subseteq> set (normalizeStep acc x) \<union> set xs"
    by (rule Cons.IH)
  then show ?case using normalizeStep_subset[of acc x] by auto
qed

subsection \<open>The normalized components are a fixed point of the loop\<close>

text \<open>
  The loop of \<open>getNormalizedParts\<close> keeps its accumulator in the form \<open>normalParts\<close>, and run
  on a list of that form it returns the list.
\<close>

lemma dropWhile_append_subset: "set (dropWhile P ys) \<subseteq> set (dropWhile P (ys @ zs))"
  by (induction ys) auto

lemma dropWhile_butlast_subset: "set (dropWhile P (butlast xs)) \<subseteq> set (dropWhile P xs)"
proof (cases "xs = []")
  case False
  then have e: "butlast xs @ [last xs] = xs" by simp
  show ?thesis using dropWhile_append_subset[of P "butlast xs" "[last xs]"] unfolding e .
qed simp

lemma dropWhile_tl_subset: "set (dropWhile P (tl xs)) \<subseteq> set (dropWhile P xs)"
proof (cases xs)
  case (Cons x xs')
  have "set (dropWhile P xs') \<subseteq> set xs'" by (auto dest: set_dropWhileD)
  then show ?thesis using Cons by auto
qed simp

lemma dropWhile_reaches:
  "d \<notin> set (dropWhile P (acc @ d # ps)) \<Longrightarrow> \<forall>a \<in> set acc. P a"
proof (induction acc)
  case Nil
  then show ?case by simp
next
  case (Cons a acc)
  show ?case
  proof (cases "P a")
    case True
    then have "dropWhile P ((a # acc) @ d # ps) = dropWhile P (acc @ d # ps)" by simp
    then have "d \<notin> set (dropWhile P (acc @ d # ps))" using Cons.prems by simp
    then have "\<forall>a \<in> set acc. P a" by (rule Cons.IH)
    then show ?thesis using True by simp
  next
    case False
    then have "dropWhile P ((a # acc) @ d # ps) = (a # acc) @ d # ps" by simp
    then have "d \<in> set (dropWhile P ((a # acc) @ d # ps))" by simp
    then show ?thesis using Cons.prems by (rule notE[rotated])
  qed
qed

lemma last_reaches:
  assumes "d \<notin> set (dropWhile P acc)" "acc \<noteq> []" "last acc = d"
  shows "\<forall>a \<in> set acc. P a"
proof -
  have e: "butlast acc @ [d] = acc" using assms(2,3) by auto
  have "d \<notin> set (dropWhile P (butlast acc @ d # []))" using assms(1) unfolding e .
  then have b: "\<forall>a \<in> set (butlast acc). P a" by (rule dropWhile_reaches)
  have "P d"
  proof (rule ccontr)
    assume "\<not> P d"
    then have "dropWhile P (butlast acc @ [d]) = [d]" using b by (simp add: dropWhile_append)
    then show False using assms(1) unfolding e by simp
  qed
  then have "\<forall>a \<in> set (butlast acc @ [d]). P a" using b by simp
  then show ?thesis unfolding e .
qed

lemma normalParts_Nil [simp]: "normalParts []"
  by (simp add: normalParts_def)

lemma normalParts_valid: "normalParts ps \<Longrightarrow> x \<in> set ps \<Longrightarrow> validPart x"
  by (simp add: normalParts_def list_all_iff)

lemma normalParts_step:
  assumes "normalParts acc" "slash \<notin> set part"
  shows "normalParts (normalizeStep acc part)"
proof -
  let ?P = "\<lambda>x. x = ''..''"
  have va: "list_all validPart acc" and nd: "''..'' \<notin> set (dropWhile ?P acc)"
    using assms(1) by (simp_all add: normalParts_def)
  consider (dot) "part = ''.''"
    | (pop) "part \<noteq> ''.''" "part = ''..''" "acc \<noteq> []" "last acc \<noteq> ''..''"
    | (pushdots) "part = ''..''" "acc = [] \<or> last acc = ''..''"
    | (push) "part \<noteq> ''.''" "part \<noteq> ''..''" "part \<noteq> []"
    | (empty) "part = []"
    by blast
  then show ?thesis
  proof cases
    case dot
    then show ?thesis using assms(1) by (simp add: normalizeStep_def)
  next
    case pop
    have "list_all validPart (butlast acc)"
      using va by (auto simp: list_all_iff dest: in_set_butlastD)
    moreover have "''..'' \<notin> set (dropWhile ?P (butlast acc))"
      using nd dropWhile_butlast_subset[of ?P acc] by blast
    ultimately show ?thesis using pop by (simp add: normalizeStep_def normalParts_def)
  next
    case pushdots
    have step: "normalizeStep acc part = acc @ [part]"
      using pushdots by (auto simp: normalizeStep_def)
    have vp: "validPart part" using pushdots(1) by (simp add: validPart_def slash_def)
    have "\<forall>a \<in> set acc. a = ''..''"
    proof (cases "acc = []")
      case False
      then have "last acc = ''..''" using pushdots(2) by simp
      with nd False show ?thesis by (rule last_reaches)
    qed simp
    then have "dropWhile ?P (acc @ [part]) = []"
      using pushdots(1) by (simp add: dropWhile_eq_Nil_conv)
    then show ?thesis using step va vp by (simp add: normalParts_def)
  next
    case push
    have step: "normalizeStep acc part = acc @ [part]"
      using push by (simp add: normalizeStep_def)
    have vp: "validPart part" using push assms(2) by (simp add: validPart_def)
    have "set (dropWhile ?P (acc @ [part])) \<subseteq> insert part (set (dropWhile ?P acc))"
      by (auto simp: dropWhile_append split: if_splits)
    then have "''..'' \<notin> set (dropWhile ?P (acc @ [part]))"
      using nd push(2) by blast
    then show ?thesis using step va vp by (simp add: normalParts_def)
  next
    case empty
    then show ?thesis using assms(1) by (simp add: normalizeStep_def)
  qed
qed

lemma normalParts_foldl:
  "normalParts acc \<Longrightarrow> \<forall>x \<in> set xs. slash \<notin> set x \<Longrightarrow> normalParts (foldl normalizeStep acc xs)"
  by (induction xs arbitrary: acc) (simp_all add: normalParts_step)

lemma normalParts_fixpoint:
  "normalParts (acc @ ps) \<Longrightarrow> foldl normalizeStep acc ps = acc @ ps"
proof (induction ps arbitrary: acc)
  case Nil
  then show ?case by simp
next
  case (Cons x ps)
  have vx: "validPart x" using Cons.prems by (simp add: normalParts_def)
  have "normalizeStep acc x = acc @ [x]"
  proof (cases "x = ''..''")
    case True
    have "''..'' \<notin> set (dropWhile (\<lambda>x. x = ''..'') (acc @ ''..'' # ps))"
      using Cons.prems True by (simp add: normalParts_def)
    then have "\<forall>a \<in> set acc. a = ''..''" by (rule dropWhile_reaches)
    then have "acc = [] \<or> last acc = ''..''" using last_in_set by blast
    then show ?thesis using True by (auto simp: normalizeStep_def)
  next
    case False
    then show ?thesis using vx by (simp add: normalizeStep_def validPart_def)
  qed
  then show ?case using Cons.IH[of "acc @ [x]"] Cons.prems by simp
qed

lemma foldl_normalizeStep_empty:
  "foldl normalizeStep acc (ps @ [[]]) = foldl normalizeStep acc ps"
  by (simp add: normalizeStep_def)

lemma normalParts_tl: "normalParts ps \<Longrightarrow> normalParts (tl ps)"
  unfolding normalParts_def using dropWhile_tl_subset[of "\<lambda>x. x = ''..''" ps]
  by (cases ps) (auto simp: list_all_iff)

lemma normalParts_slash_free: "normalParts ps \<Longrightarrow> \<forall>x \<in> set ps. slash \<notin> set x"
  by (simp add: normalParts_def list_all_iff validPart_def)

lemma join_nonempty: "ps \<noteq> [] \<Longrightarrow> last ps \<noteq> [] \<Longrightarrow> join [sep] ps \<noteq> []"
proof (induction ps)
  case Nil
  then show ?case by simp
next
  case (Cons x xs)
  then show ?case by (cases xs) auto
qed

lemma last_join:
  "ps \<noteq> [] \<Longrightarrow> last ps \<noteq> [] \<Longrightarrow> last (join [sep] ps) = last (last ps)"
proof (induction ps)
  case Nil
  then show ?case by simp
next
  case (Cons x xs)
  show ?case
  proof (cases xs)
    case Nil
    then show ?thesis by simp
  next
    case (Cons y ys)
    have l: "last xs \<noteq> []" using Cons.prems Cons by simp
    have "join [sep] xs \<noteq> []" using join_nonempty[of xs sep] l Cons by simp
    then have "last (join [sep] (x # xs)) = last (join [sep] xs)" using Cons by simp
    then show ?thesis using Cons.IH l Cons by simp
  qed
qed

subsection \<open>The first alternative of the root expression on a normalized path\<close>

text \<open>
  After \<open>//\<close> the root can grow when the path is normalized again: a first component
  with a line terminator stops \<^verbatim>\<open>.*?\<close>, and \<open>..\<close> can remove that component. The root
  then ends after a later component, and what follows is still normalized.
\<close>

lemma normalTail_Nil [simp]: "normalTail []"
  by (simp add: normalTail_def)

lemma validPart_hd: "validPart x \<Longrightarrow> \<exists>c cs. x = c # cs \<and> c \<noteq> slash"
  by (cases x) (auto simp: validPart_def)

lemma normalTail_cases:
  assumes "normalTail w" "w \<noteq> []"
  obtains x where "validPart x" "w = x"
  | x w' where "validPart x" "w = x @ slash # w'" "normalTail w'"
proof -
  obtain ps t where pt: "normalParts ps" "ps \<noteq> []" "t = [] \<or> t = [slash]" "w = join [slash] ps @ t"
    using assms unfolding normalTail_def by blast
  obtain x ps' where ps: "ps = x # ps'" using pt(2) by (cases ps) auto
  have vx: "validPart x" using pt(1) ps by (simp add: normalParts_def)
  have np': "normalParts ps'" using normalParts_tl[OF pt(1)] ps by simp
  show ?thesis
  proof (cases ps')
    case Nil
    then have "w = x \<or> w = x @ slash # []" using pt(3,4) ps by auto
    then show ?thesis using that vx normalTail_Nil by blast
  next
    case (Cons y ys)
    then have "w = x @ slash # (join [slash] ps' @ t)" using pt(4) ps by simp
    moreover have "normalTail (join [slash] ps' @ t)"
      unfolding normalTail_def using np' Cons pt(3) by blast
    ultimately show ?thesis using that vx by blast
  qed
qed

lemma normalTail_hd: "normalTail w \<Longrightarrow> w = [] \<or> (\<exists>c cs. w = c # cs \<and> c \<noteq> slash)"
proof (cases "w = []")
  case False
  assume nt: "normalTail w"
  consider (one) x where "validPart x" "w = x"
    | (more) x w' where "validPart x" "w = x @ slash # w'" "normalTail w'"
    using nt False by (rule normalTail_cases)
  then show ?thesis
  proof cases
    case (one x)
    then show ?thesis using validPart_hd[of x] by blast
  next
    case (more x w')
    then show ?thesis using validPart_hd[of x] by auto
  qed
qed simp

lemma lazyToSlash_no_slash: "slash \<notin> set x \<Longrightarrow> lazyToSlash x = None"
proof -
  assume ns: "slash \<notin> set x"
  let ?P = "\<lambda>c. c \<noteq> slash \<and> \<not> isLineTerminator c"
  have d: "drop (length (takeWhile ?P x)) x = dropWhile ?P x"
    by (rule dropWhile_eq_drop[symmetric])
  show ?thesis
  proof (cases "dropWhile ?P x")
    case Nil
    show ?thesis unfolding lazyToSlash_def Let_def d Nil by simp
  next
    case (Cons c cs)
    then have "c \<in> set (dropWhile ?P x)" by simp
    then have "c \<in> set x" by (rule set_dropWhileD)
    then have "c \<noteq> slash" using ns by blast
    then show ?thesis unfolding lazyToSlash_def Let_def d using Cons by simp
  qed
qed

lemma lazyToSlash_to_slash:
  assumes "slash \<notin> set x"
  shows "lazyToSlash (x @ slash # s) =
           (if \<forall>c \<in> set x. \<not> isLineTerminator c then Some (length x + 1) else None)"
proof -
  let ?P = "\<lambda>c. c \<noteq> slash \<and> \<not> isLineTerminator c"
  have d: "drop (length (takeWhile ?P (x @ slash # s))) (x @ slash # s) = dropWhile ?P (x @ slash # s)"
    by (rule dropWhile_eq_drop[symmetric])
  show ?thesis
  proof (cases "\<forall>c \<in> set x. \<not> isLineTerminator c")
    case True
    then have allP: "\<forall>c \<in> set x. ?P c" using assms by blast
    have t: "takeWhile ?P (x @ slash # s) = x" using allP by (simp add: takeWhile_append2)
    have "dropWhile ?P (x @ slash # s) = slash # s" using allP by (simp add: dropWhile_append2)
    then show ?thesis unfolding lazyToSlash_def Let_def d using t True by simp
  next
    case False
    then obtain c where c: "c \<in> set x" "\<not> ?P c" by blast
    have dw: "dropWhile ?P (x @ slash # s) = dropWhile ?P x @ slash # s"
      using c by (simp add: dropWhile_append1)
    have ne: "dropWhile ?P x \<noteq> []" using c by (auto simp: dropWhile_eq_Nil_conv)
    then obtain e es where e: "dropWhile ?P x = e # es" by (cases "dropWhile ?P x") auto
    then have "e \<in> set (dropWhile ?P x)" by simp
    then have "e \<in> set x" by (rule set_dropWhileD)
    then have "e \<noteq> slash" using assms by blast
    then show ?thesis unfolding lazyToSlash_def Let_def d dw e using False by simp
  qed
qed

lemma lazyToSlash_shape:
  assumes "lazyToSlash s = Some n"
  obtains x s' where "s = x @ slash # s'" "slash \<notin> set x" "\<forall>c \<in> set x. \<not> isLineTerminator c"
    "n = length x + 1"
proof -
  let ?P = "\<lambda>c. c \<noteq> slash \<and> \<not> isLineTerminator c"
  let ?x = "takeWhile ?P s"
  have d: "drop (length ?x) s = dropWhile ?P s"
    by (rule dropWhile_eq_drop[symmetric])
  obtain c cs where c: "dropWhile ?P s = c # cs" "c = slash" "n = length ?x + 1"
    using assms unfolding lazyToSlash_def Let_def d
    by (cases "dropWhile ?P s") (auto split: if_splits)
  have "s = ?x @ dropWhile ?P s" by simp
  then have s: "s = ?x @ slash # cs" using c by simp
  have "\<forall>a \<in> set ?x. ?P a" by (auto dest: set_takeWhileD)
  then have "slash \<notin> set ?x" "\<forall>a \<in> set ?x. \<not> isLineTerminator a" by blast+
  then show ?thesis using that s c(3) by blast
qed

lemma validPart_no_slash: "validPart x \<Longrightarrow> slash \<notin> set x"
  by (simp add: validPart_def)

lemma root1_normalTail:
  assumes "normalTail w"
  shows "normalTail (drop (root1 w) w)"
proof (cases "w = []")
  case True
  then show ?thesis by simp
next
  case False
  consider (one) x where "validPart x" "w = x"
    | (more) x w' where "validPart x" "w = x @ slash # w'" "normalTail w'"
    using assms False by (rule normalTail_cases)
  then show ?thesis
  proof cases
    case (one x)
    then have "lazyToSlash w = None" using lazyToSlash_no_slash validPart_no_slash by simp
    then show ?thesis using assms by (simp add: root1_def)
  next
    case (more x w')
    note 2 = more
    have ns: "slash \<notin> set x" using 2(1) by (rule validPart_no_slash)
    show ?thesis
    proof (cases "\<forall>c \<in> set x. \<not> isLineTerminator c")
      case True
      then have "lazyToSlash w = Some (length x + 1)"
        using lazyToSlash_to_slash[OF ns, of w'] 2(2) by simp
      then have "drop (root1 w) w = w'" using 2(2) by (simp add: root1_def)
      then show ?thesis using 2(3) by simp
    next
      case nt: False
      then have "lazyToSlash w = None"
        using lazyToSlash_to_slash[OF ns, of w'] 2(2) by simp
      then show ?thesis using assms by (simp add: root1_def)
    qed
  qed
qed

lemma root2_root1:
  "root2 s = (if lazyToSlash s = None then 0 else root1 s + root1 (drop (root1 s) s))"
  by (simp add: root2_def root1_def split: option.splits)

lemma matchSlashRoot_double:
  "matchSlashRoot (slash # slash # s) = Some (2 + root2 s)"
  by (simp add: matchSlashRoot_def root2_def split: option.splits)

lemma matchSlashRoot_single:
  "w = [] \<or> (\<exists>c cs. w = c # cs \<and> c \<noteq> slash) \<Longrightarrow> matchSlashRoot (slash # w) = Some 1"
  by (auto simp: matchSlashRoot_def)

lemma root2_normalTail:
  assumes "normalTail w"
  shows "normalTail (drop (root2 w) w)"
proof (cases "lazyToSlash w")
  case None
  then show ?thesis using assms by (simp add: root2_root1)
next
  case (Some n)
  have "normalTail (drop (root1 (drop (root1 w) w)) (drop (root1 w) w))"
    using assms by (intro root1_normalTail)
  then show ?thesis using Some by (simp add: root2_root1 add.commute)
qed

lemma root2_stable:
  assumes "normalTail w"
  shows "\<exists>m. root2 (take (root2 s) s @ w) = length (take (root2 s) s) + m \<and> normalTail (drop m w)"
proof (cases "lazyToSlash s")
  case None
  then have "root2 s = 0" by (simp add: root2_def)
  then show ?thesis using root2_normalTail[OF assms] by simp
next
  case (Some n1)
  then obtain x s' where x: "s = x @ slash # s'" "slash \<notin> set x"
    "\<forall>c \<in> set x. \<not> isLineTerminator c" "n1 = length x + 1"
    by (rule lazyToSlash_shape)
  have d1: "drop n1 s = s'" using x(1,4) by simp
  have t1: "take n1 s = x @ [slash]" using x(1,4) by simp
  show ?thesis
  proof (cases "lazyToSlash s'")
    case None
    then have r: "root2 s = n1" using Some d1 by (simp add: root2_def)
    have l: "lazyToSlash (x @ slash # w) = Some n1"
      using lazyToSlash_to_slash[OF x(2), of w] x(3,4) by simp
    have "root2 (x @ slash # w) = n1 + root1 w"
      using l x(4) by (simp add: root2_def root1_def split: option.splits)
    then have "root2 (take (root2 s) s @ w) = length (take (root2 s) s) + root1 w"
      using r t1 x(4) by simp
    then show ?thesis using root1_normalTail[OF assms] by blast
  next
    case (Some n2)
    then obtain y s'' where y: "s' = y @ slash # s''" "slash \<notin> set y"
      "\<forall>c \<in> set y. \<not> isLineTerminator c" "n2 = length y + 1"
      by (rule lazyToSlash_shape)
    have r: "root2 s = n1 + n2" using \<open>lazyToSlash s = Some n1\<close> Some d1 by (simp add: root2_def)
    have t: "take (n1 + n2) s = x @ slash # y @ [slash]" using x(1,4) y(1,4) by simp
    have l1: "lazyToSlash (x @ slash # y @ slash # w) = Some n1"
      using lazyToSlash_to_slash[OF x(2), of "y @ slash # w"] x(3,4) by simp
    have l2: "lazyToSlash (y @ slash # w) = Some n2"
      using lazyToSlash_to_slash[OF y(2), of w] y(3,4) by simp
    have "root2 (x @ slash # y @ slash # w) = n1 + n2"
      using l1 l2 x(4) by (simp add: root2_def)
    then have "root2 (take (root2 s) s @ w) = length (take (root2 s) s) + 0"
      using r t x(4) y(4) by simp
    then show ?thesis using assms by (metis drop0)
  qed
qed

lemma slash_root_stable:
  assumes "matchSlashRoot path = Some r" "normalTail w"
  shows "\<exists>m. matchSlashRoot (take r path @ w) = Some (length (take r path) + m)
             \<and> normalTail (drop m w)"
proof -
  have w: "w = [] \<or> (\<exists>c cs. w = c # cs \<and> c \<noteq> slash)"
    using assms(2) by (rule normalTail_hd)
  have single: "matchSlashRoot (slash # w) = Some 1"
    using w by (rule matchSlashRoot_single)
  consider (one) "path = [slash]" "r = 1"
    | (two) d rest where "path = slash # d # rest" "d \<noteq> slash" "r = 1"
    | (unc) s where "path = slash # slash # s" "r = 2 + root2 s"
  proof (cases path)
    case Nil
    then show ?thesis using assms(1) by (simp add: matchSlashRoot_def)
  next
    case (Cons c rest)
    then have c: "c = slash" using assms(1) by (auto simp: matchSlashRoot_def split: if_splits)
    show ?thesis
    proof (cases rest)
      case Nil
      then show ?thesis using Cons c assms(1) that(1) by (simp add: matchSlashRoot_def)
    next
      case inner: (Cons d rest2)
      show ?thesis
      proof (cases "d = slash")
        case True
        then show ?thesis
          using Cons c inner assms(1) that(3)[of rest2] matchSlashRoot_double[of rest2] by simp
      next
        case False
        then show ?thesis
          using Cons c inner assms(1) that(2)[of d rest2] by (simp add: matchSlashRoot_def)
      qed
    qed
  qed
  then show ?thesis
  proof cases
    case one
    then have "matchSlashRoot (take r path @ w) = Some (length (take r path) + 0)"
      using single by simp
    then show ?thesis using assms(2) by (metis drop0)
  next
    case two
    then have "matchSlashRoot (take r path @ w) = Some (length (take r path) + 0)"
      using single by simp
    then show ?thesis using assms(2) by (metis drop0)
  next
    case unc
    obtain m where m: "root2 (take (root2 s) s @ w) = length (take (root2 s) s) + m"
      "normalTail (drop m w)"
      using root2_stable[OF assms(2), of s] by blast
    have "take r path @ w = slash # slash # (take (root2 s) s @ w)"
      using unc by simp
    then have "matchSlashRoot (take r path @ w) = Some (2 + root2 (take (root2 s) s @ w))"
      using matchSlashRoot_double by simp
    moreover have "length (take r path) = 2 + length (take (root2 s) s)"
      using unc by simp
    ultimately have "matchSlashRoot (take r path @ w) = Some (length (take r path) + m)"
      using m(1) by simp
    then show ?thesis using m(2) by blast
  qed
qed

subsection \<open>The drive root and the URL root on a normalized path\<close>

lemma isLetter_not_slash: "isLetter c \<Longrightarrow> c \<noteq> slash"
  by (auto simp: isLetter_def slash_def)

lemma isWordChar_not_slash: "isWordChar c \<Longrightarrow> c \<noteq> slash"
  by (auto simp: isWordChar_def isLetter_def slash_def)

lemma isWordChar_not_colon: "isWordChar c \<Longrightarrow> c \<noteq> CHR '':''"
  by (auto simp: isWordChar_def isLetter_def)

lemma matchSlashRoot_other: "c \<noteq> slash \<Longrightarrow> matchSlashRoot (c # cs) = None"
  by (simp add: matchSlashRoot_def)

lemma drive_root_stable:
  assumes "matchDriveRoot path = Some r" "normalTail w"
  shows "matchSlashRoot (take r path @ w) = None
         \<and> matchDriveRoot (take r path @ w) = Some (length (take r path))"
proof -
  have w: "w = [] \<or> (\<exists>c cs. w = c # cs \<and> c \<noteq> slash)"
    using assms(2) by (rule normalTail_hd)
  obtain c rest where p: "path = c # CHR '':'' # rest" "isLetter c"
    using assms(1)
    by (cases path; cases "tl path") (auto simp: matchDriveRoot_def split: if_splits)
  have c: "c \<noteq> slash" using p(2) by (rule isLetter_not_slash)
  show ?thesis
  proof (cases "\<exists>rest'. rest = slash # rest'")
    case True
    then obtain rest' where rest: "rest = slash # rest'" by blast
    then have r: "r = 3" using assms(1) p by (simp add: matchDriveRoot_def)
    have q: "take r path @ w = c # CHR '':'' # slash # w" using r p rest by simp
    show ?thesis unfolding q using c p(2) r p(1) rest
      by (simp add: matchSlashRoot_other matchDriveRoot_def)
  next
    case False
    then have r: "r = 2" using assms(1) p
      by (cases rest) (auto simp: matchDriveRoot_def split: if_splits)
    have q: "take r path @ w = c # CHR '':'' # w" using r p by simp
    have "matchDriveRoot (c # CHR '':'' # w) = Some 2"
      using w p(2) by (auto simp: matchDriveRoot_def)
    then show ?thesis unfolding q using c r p(1)
      by (simp add: matchSlashRoot_other)
  qed
qed

lemma take_length_append: "n = length xs \<Longrightarrow> take n (xs @ ys) = xs"
  by simp

lemma matchUrlRoot_unfold:
  assumes "scheme = takeWhile isWordChar path" "rest = dropWhile isWordChar path"
    "rest2 = drop 3 rest" "host = takeWhile (\<lambda>c. c \<noteq> slash) rest2"
    "after = dropWhile (\<lambda>c. c \<noteq> slash) rest2"
  shows "matchUrlRoot path =
           (if scheme = [] then None
            else if take 3 rest \<noteq> [CHR '':'', slash, slash] then None
            else (case after of
                    [] \<Rightarrow> Some (length scheme + 3 + length host)
                  | _ # _ \<Rightarrow> Some (length scheme + 3 + length host + 1)))"
proof -
  have dr: "drop (length scheme) path = rest"
    unfolding assms(1,2) by (rule dropWhile_eq_drop[symmetric])
  have da: "drop (length host) rest2 = after"
    unfolding assms(4,5) by (rule dropWhile_eq_drop[symmetric])
  show ?thesis
    unfolding matchUrlRoot_def Let_def assms(1)[symmetric] dr assms(3)[symmetric]
      assms(4)[symmetric] da ..
qed

lemma matchUrlRoot_shape:
  assumes "matchUrlRoot path = Some r" "r < length path"
  obtains scheme host after' where
    "path = scheme @ CHR '':'' # slash # slash # host @ slash # after'"
    "scheme \<noteq> []" "\<forall>c \<in> set scheme. isWordChar c" "\<forall>c \<in> set host. c \<noteq> slash"
    "r = length scheme + 3 + length host + 1"
proof -
  define scheme where "scheme = takeWhile isWordChar path"
  define rest where "rest = dropWhile isWordChar path"
  define rest2 where "rest2 = drop 3 rest"
  define host where "host = takeWhile (\<lambda>c. c \<noteq> slash) rest2"
  define after where "after = dropWhile (\<lambda>c. c \<noteq> slash) rest2"
  note m = matchUrlRoot_unfold[OF scheme_def rest_def rest2_def host_def after_def]
  have sch: "scheme \<noteq> []" using assms(1) unfolding m by (auto split: if_splits)
  have t3: "take 3 rest = [CHR '':'', slash, slash]"
    using assms(1) unfolding m by (auto split: if_splits)
  have r: "r = (case after of [] \<Rightarrow> length scheme + 3 + length host
                | _ # _ \<Rightarrow> length scheme + 3 + length host + 1)"
    using assms(1) sch t3 unfolding m by (cases after) simp_all
  have p1: "path = scheme @ rest"
    unfolding scheme_def rest_def by (rule takeWhile_dropWhile_id[symmetric])
  have "rest = take 3 rest @ rest2" unfolding rest2_def by (rule append_take_drop_id[symmetric])
  then have p2: "rest = CHR '':'' # slash # slash # rest2" unfolding t3 by simp
  have p3: "rest2 = host @ after"
    unfolding host_def after_def by (rule takeWhile_dropWhile_id[symmetric])
  have path: "path = scheme @ CHR '':'' # slash # slash # host @ after"
    using p1 unfolding p2 p3 .
  have ne: "after \<noteq> []"
  proof
    assume e: "after = []"
    have "r = length scheme + 3 + length host" using r unfolding e by simp
    moreover have "length path = length scheme + 3 + length host"
      using arg_cong[OF path, of length] unfolding e by simp
    ultimately show False using assms(2) by simp
  qed
  have "\<not> (hd after \<noteq> slash)" using ne unfolding after_def by (rule hd_dropWhile)
  then have af: "after = slash # tl after" using ne by (cases after) auto
  have rr: "r = length scheme + 3 + length host + 1"
    using r ne by (cases after) simp_all
  have sw: "\<forall>c \<in> set scheme. isWordChar c" unfolding scheme_def by (auto dest: set_takeWhileD)
  have hs: "\<forall>c \<in> set host. c \<noteq> slash" unfolding host_def by (auto dest: set_takeWhileD)
  have "path = scheme @ CHR '':'' # slash # slash # host @ slash # tl after"
    using path af by simp
  then show ?thesis using that sch sw hs rr by blast
qed

lemma url_root_stable:
  assumes "matchDriveRoot path = None" "matchUrlRoot path = Some r" "r < length path"
  shows "matchSlashRoot (take r path @ w) = None
         \<and> matchDriveRoot (take r path @ w) = None
         \<and> matchUrlRoot (take r path @ w) = Some (length (take r path))"
proof -
  obtain scheme host after' where
    path: "path = scheme @ CHR '':'' # slash # slash # host @ slash # after'"
    and sne: "scheme \<noteq> []" and sw: "\<forall>c \<in> set scheme. isWordChar c"
    and hs: "\<forall>c \<in> set host. c \<noteq> slash"
    and rr: "r = length scheme + 3 + length host + 1"
    using assms(2,3) by (rule matchUrlRoot_shape)
  have pre: "path = (scheme @ CHR '':'' # slash # slash # host @ [slash]) @ after'"
    unfolding path by simp
  have lr: "r = length (scheme @ CHR '':'' # slash # slash # host @ [slash])"
    unfolding rr by simp
  have tk: "take r path = scheme @ CHR '':'' # slash # slash # host @ [slash]"
    unfolding pre using lr by (rule take_length_append)
  define q where "q = scheme @ CHR '':'' # slash # slash # host @ slash # w"
  have q: "take r path @ w = q" unfolding tk q_def by simp
  have lq: "length (take r path) = r" using assms(3) by simp
  have nc: "\<not> isWordChar (CHR '':'')" using isWordChar_not_colon by blast
  have tw: "takeWhile isWordChar q = scheme"
    unfolding q_def using sw nc by (simp add: takeWhile_append2)
  have dw: "dropWhile isWordChar q = CHR '':'' # slash # slash # host @ slash # w"
    unfolding q_def using sw nc by (simp add: dropWhile_append2)
  have th: "takeWhile (\<lambda>c. c \<noteq> slash) (host @ slash # w) = host"
    using hs by (simp add: takeWhile_append2)
  have dh: "dropWhile (\<lambda>c. c \<noteq> slash) (host @ slash # w) = slash # w"
    using hs by (simp add: dropWhile_append2)
  have d3: "host @ slash # w = drop 3 (CHR '':'' # slash # slash # host @ slash # w)"
    by simp
  note m = matchUrlRoot_unfold[OF tw[symmetric] dw[symmetric] d3 th[symmetric] dh[symmetric]]
  have url: "matchUrlRoot q = Some r"
    using sne rr by (simp add: m)
  obtain a sch' where a: "scheme = a # sch'" using sne by (cases scheme) auto
  have aw: "isWordChar a" using sw a by simp
  have sl: "matchSlashRoot q = None"
    unfolding q_def a using isWordChar_not_slash[OF aw] by (simp add: matchSlashRoot_other)
  have dr: "matchDriveRoot q = None"
  proof (cases sch')
    case Nil
    have "\<not> isLetter a" using assms(1) unfolding path a Nil
      by (auto simp: matchDriveRoot_def split: if_splits)
    then show ?thesis unfolding q_def a Nil by (simp add: matchDriveRoot_def)
  next
    case (Cons b sch'')
    have "isWordChar b" using sw a Cons by simp
    then have "b \<noteq> CHR '':''" by (rule isWordChar_not_colon)
    then show ?thesis unfolding q_def a Cons by (simp add: matchDriveRoot_def)
  qed
  show ?thesis unfolding q lq using sl dr url by simp
qed

subsection \<open>normalize on its own result\<close>

lemma normalizePath_rest:
  "normalizePath p =
     take (getRootLength (normalizeSlashes p)) (normalizeSlashes p)
     @ normalizedRest (normalizeSlashes p) (getRootLength (normalizeSlashes p))"
  by (simp add: normalizePath_def normalizedRest_def Let_def)

lemma backslash_not_slash: "backslash \<noteq> slash"
  by (simp add: backslash_def slash_def)

lemma normalizeSlashes_no_backslash: "backslash \<notin> set (normalizeSlashes p)"
  using backslash_not_slash by (auto simp: normalizeSlashes_def)

lemma normalizeSlashes_id: "backslash \<notin> set q \<Longrightarrow> normalizeSlashes q = q"
  unfolding normalizeSlashes_def by (induction q) auto

lemma getNormalizedParts_normal: "normalParts (getNormalizedParts path r)"
  unfolding getNormalizedParts_def
  by (rule normalParts_foldl) (auto dest: split_no_sep)

lemma getNormalizedParts_chars:
  "x \<in> set (getNormalizedParts path r) \<Longrightarrow> set x \<subseteq> set path"
proof -
  assume "x \<in> set (getNormalizedParts path r)"
  then have "x \<in> set (split slash (drop r path))"
    unfolding getNormalizedParts_def using foldl_normalizeStep_subset[of "[]"] by auto
  then have "set x \<subseteq> set (drop r path)" by (rule split_chars)
  then show ?thesis using set_drop_subset[of r path] by blast
qed

lemma normalizedRest_normalTail: "normalTail (normalizedRest path r)"
proof (cases "getNormalizedParts path r = []")
  case True
  then show ?thesis by (simp add: normalizedRest_def)
next
  case False
  have "normalParts (getNormalizedParts path r)" by (rule getNormalizedParts_normal)
  then show ?thesis unfolding normalizedRest_def Let_def normalTail_def using False by auto
qed

lemma normalizedRest_chars: "set (normalizedRest path r) \<subseteq> insert slash (set path)"
proof -
  have "set (join [slash] (getNormalizedParts path r)) \<subseteq> insert slash (set path)"
    using join_chars[of slash "getNormalizedParts path r"] getNormalizedParts_chars[of _ path r]
    by blast
  then show ?thesis by (auto simp: normalizedRest_def Let_def)
qed

lemma normalizedRest_fix:
  assumes "normalTail w" "drop r q = w" "w \<noteq> [] \<longrightarrow> endsWithSlash q = endsWithSlash w"
  shows "normalizedRest q r = w"
proof (cases "w = []")
  case True
  then have "getNormalizedParts q r = []"
    using assms(2) by (simp add: getNormalizedParts_def normalizeStep_def)
  then show ?thesis using True by (simp add: normalizedRest_def)
next
  case False
  then obtain ps t where pt: "normalParts ps" "ps \<noteq> []" "t = [] \<or> t = [slash]"
    "w = join [slash] ps @ t"
    using assms(1) unfolding normalTail_def by blast
  have sf: "\<forall>x \<in> set ps. slash \<notin> set x" using pt(1) by (rule normalParts_slash_free)
  have fx: "foldl normalizeStep [] ps = ps" using normalParts_fixpoint[of "[]" ps] pt(1) by simp
  have lne: "last ps \<noteq> []"
    using normalParts_valid[OF pt(1), of "last ps"] pt(2) by (simp add: validPart_def)
  have jne: "join [slash] ps \<noteq> []" using pt(2) lne by (rule join_nonempty)
  have lj: "last (join [slash] ps) \<noteq> slash"
  proof -
    have "last (join [slash] ps) = last (last ps)" using pt(2) lne by (rule last_join)
    moreover have "last (last ps) \<in> set (last ps)" using lne by (rule last_in_set)
    moreover have "slash \<notin> set (last ps)" using sf pt(2) by simp
    ultimately show ?thesis by metis
  qed
  from pt(3) show ?thesis
  proof
    assume t: "t = []"
    have "split slash w = ps" using pt(4) t split_join[OF pt(2) sf] by simp
    then have g: "getNormalizedParts q r = ps"
      using assms(2) fx by (simp add: getNormalizedParts_def)
    have "\<not> endsWithSlash w" using pt(4) t lj by (simp add: endsWithSlash_def)
    then have "\<not> endsWithSlash q" using assms(3) False by simp
    then show ?thesis using g pt(2,4) t by (simp add: normalizedRest_def)
  next
    assume t: "t = [slash]"
    have "split slash w = ps @ [[]]" using pt(4) t split_join_slash[OF pt(2) sf] by simp
    then have g: "getNormalizedParts q r = ps"
      using assms(2) fx by (simp add: getNormalizedParts_def normalizeStep_def)
    have "endsWithSlash w" using pt(4) t by (simp add: endsWithSlash_def)
    then have "endsWithSlash q" using assms(3) False by simp
    then show ?thesis using g pt(2,4) t by (simp add: normalizedRest_def)
  qed
qed

lemma normalizePath_fixed:
  assumes "backslash \<notin> set q" "normalTail (drop (getRootLength q) q)"
  shows "normalizePath q = q"
proof -
  let ?r = "getRootLength q"
  have ns: "normalizeSlashes q = q" using assms(1) by (rule normalizeSlashes_id)
  have "drop ?r q \<noteq> [] \<longrightarrow> endsWithSlash q = endsWithSlash (drop ?r q)"
    by (auto simp: endsWithSlash_def last_drop)
  then have "normalizedRest q ?r = drop ?r q"
    using assms(2) by (intro normalizedRest_fix) simp_all
  then show ?thesis unfolding normalizePath_rest ns by simp
qed

lemma root_stable:
  assumes "getRootLength path \<noteq> 0" "getRootLength path < length path" "normalTail w"
  shows "\<exists>m. getRootLength (take (getRootLength path) path @ w)
               = length (take (getRootLength path) path) + m
             \<and> normalTail (drop m w)"
proof (cases "matchSlashRoot path")
  case (Some r)
  then have r: "getRootLength path = r" by (simp add: getRootLength_def)
  obtain m where m: "matchSlashRoot (take r path @ w) = Some (length (take r path) + m)"
    "normalTail (drop m w)"
    using slash_root_stable[OF Some assms(3)] by blast
  have "getRootLength (take r path @ w) = length (take r path) + m"
    using m(1) by (simp add: getRootLength_def)
  then show ?thesis unfolding r using m(2) by blast
next
  case None
  show ?thesis
  proof (cases "matchDriveRoot path")
    case (Some r)
    then have r: "getRootLength path = r" using None by (simp add: getRootLength_def)
    have "getRootLength (take r path @ w) = length (take r path) + 0"
      using drive_root_stable[OF Some assms(3)] by (simp add: getRootLength_def)
    then show ?thesis unfolding r using assms(3) by (metis drop0)
  next
    case nd: None
    show ?thesis
    proof (cases "matchUrlRoot path")
      case None
      then show ?thesis using assms(1) \<open>matchSlashRoot path = None\<close> nd
        by (simp add: getRootLength_def)
    next
      case (Some r)
      then have r: "getRootLength path = r"
        using \<open>matchSlashRoot path = None\<close> nd by (simp add: getRootLength_def)
      have "r < length path" using assms(2) r by simp
      then have "getRootLength (take r path @ w) = length (take r path) + 0"
        using url_root_stable[OF nd Some, of w] by (simp add: getRootLength_def)
      then show ?thesis unfolding r using assms(3) by (metis drop0)
    qed
  qed
qed

text \<open>
  C9. For every path \<open>p\<close> whose root length, taken after the separators are
  normalized, is not zero (an absolute path: a path with zero root length is
  relative), \<open>normalize (normalize p) = normalize p\<close>. The hypothesis is stated with
  \<open>getRootLength\<close> and not with \<open>isAbsolute\<close>, which compares the root length with
  \<open>0\<close> the other way round. The paths are the strings of the model, over 8-bit
  characters.
\<close>

theorem normalize_idempotent:
  assumes "getRootLength (normalizeSlashes p) \<noteq> 0"
  shows "normalizePath (normalizePath p) = normalizePath p"
proof -
  define path where "path = normalizeSlashes p"
  define r where "r = getRootLength path"
  define w where "w = normalizedRest path r"
  have q: "normalizePath p = take r path @ w"
    unfolding normalizePath_rest path_def r_def w_def ..
  have nb: "backslash \<notin> set path" unfolding path_def by (rule normalizeSlashes_no_backslash)
  have nt: "normalTail w" unfolding w_def by (rule normalizedRest_normalTail)
  show ?thesis
  proof (cases "r < length path")
    case False
    then have "drop r path = []" by simp
    then have "getNormalizedParts path r = []"
      by (simp add: getNormalizedParts_def normalizeStep_def)
    then have "w = []" unfolding w_def by (simp add: normalizedRest_def)
    then have qp: "normalizePath p = path" using q False by simp
    have ns: "normalizeSlashes path = path" using nb by (rule normalizeSlashes_id)
    have "normalizePath path = take r path @ w"
      using normalizePath_rest[of path] unfolding ns r_def w_def .
    then have "normalizePath path = normalizePath p" unfolding q .
    then show ?thesis unfolding qp .
  next
    case True
    have r0: "getRootLength path \<noteq> 0" using assms unfolding path_def .
    have rl: "getRootLength path < length path" using True unfolding r_def .
    obtain m where m: "getRootLength (take r path @ w) = length (take r path) + m"
      "normalTail (drop m w)"
      using root_stable[OF r0 rl nt] unfolding r_def by blast
    have "set (take r path @ w) \<subseteq> insert slash (set path)"
      using normalizedRest_chars[of path r] set_take_subset[of r path] unfolding w_def by auto
    then have b: "backslash \<notin> set (take r path @ w)"
      using nb backslash_not_slash by blast
    have "drop (getRootLength (take r path @ w)) (take r path @ w) = drop m w"
      unfolding m(1) by simp
    then have "normalTail (drop (getRootLength (take r path @ w)) (take r path @ w))"
      using m(2) by simp
    with b have "normalizePath (take r path @ w) = take r path @ w"
      by (rule normalizePath_fixed)
    then show ?thesis unfolding q .
  qed
qed

theorem normalize_idempotent_witness:
  "getRootLength (normalizeSlashes ''/a/./b/../c/'') \<noteq> 0
   \<and> normalizePath ''/a/./b/../c/'' = ''/a/c/''
   \<and> normalizePath (normalizePath ''/a/./b/../c/'') = ''/a/c/''"
proof -
  have 1: "getRootLength (normalizeSlashes ''/a/./b/../c/'') \<noteq> 0" by code_simp
  have 2: "normalizePath ''/a/./b/../c/'' = ''/a/c/''" by code_simp
  have "normalizePath (normalizePath ''/a/./b/../c/'') = normalizePath ''/a/./b/../c/''"
    using 1 by (rule normalize_idempotent)
  then show ?thesis using 1 2 by simp
qed

text \<open>
  The hypothesis is needed. On a relative path a component can begin like a root:
  \<open>./c:./x\<close> has root length 0 and becomes \<open>c:./x\<close>, whose root is \<open>c:\<close> and which
  becomes \<open>c:x\<close>.
\<close>

lemma normalize_relative_not_idempotent:
  "getRootLength (normalizeSlashes ''./c:./x'') = 0
   \<and> normalizePath ''./c:./x'' = ''c:./x''
   \<and> normalizePath ''c:./x'' = ''c:x''"
  by code_simp

section \<open>A clone and the directory it was cloned from\<close>

subsection \<open>Reading the content of a file\<close>

lemma contentOnly_refl [simp]: "contentOnly ob ob"
  by (simp add: contentOnly_def)

lemma contentOnly_trans: "contentOnly a b \<Longrightarrow> contentOnly b c \<Longrightarrow> contentOnly a c"
  unfolding contentOnly_def by (metis (no_types, lifting) obj.surjective obj.update_convs(12,13,14))

lemma obj_at_modify_other: "b \<noteq> a \<Longrightarrow> obj_at (modify h a f) b = obj_at h b"
  by (simp add: obj_at_def modify_def)

lemma obj_at_modify_same: "a < length h \<Longrightarrow> obj_at (modify h a f) a = f (obj_at h a)"
  by (simp add: obj_at_def modify_def)

lemma content_inb:
  "f_contentResolver (obj_at h a) \<noteq> None \<or> f_shadowRoot (obj_at h a) \<noteq> None \<or> f_content (obj_at h a) \<noteq> None
   \<Longrightarrow> a < length h"
  by (cases "a < length h") (auto simp: obj_at_def noObject_def)

lemma VirtualFile_content_known:
  "f_content (obj_at h a) = Some c \<Longrightarrow> VirtualFile_content h a = (h, Some c)"
  by (subst VirtualFile_content.simps) simp

lemma contentOnly_modify:
  assumes "contentOnly (f (obj_at h a)) (f (obj_at h a))" "\<And>ob. contentOnly ob (f ob)"
  shows "contentOnly (obj_at h b) (obj_at (modify h a f) b)"
proof (cases "b = a \<and> a < length h")
  case True
  then show ?thesis using assms(2) by (simp add: obj_at_modify_same)
next
  case False
  then have "obj_at (modify h a f) b = obj_at h b"
    by (auto simp: obj_at_def modify_def)
  then show ?thesis by simp
qed

lemma content_effect:
  "VirtualFile_content h a = (h', v)
   \<Longrightarrow> length h' = length h \<and> (\<forall>b. contentOnly (obj_at h b) (obj_at h' b))"
proof (induction h a arbitrary: h' v rule: VirtualFile_content.induct)
  case (1 h this)
  show ?case
  proof (cases "f_content (obj_at h this)")
    case (Some c)
    then have "VirtualFile_content h this = (h, Some c)" by (rule VirtualFile_content_known)
    then show ?thesis using "1.prems" by simp
  next
    case None
    define h1 where "h1 = modify h this (\<lambda>ob. ob\<lparr> f_contentResolver := None, f_shadowRoot := None \<rparr>)"
    have c1: "\<forall>b. contentOnly (obj_at h b) (obj_at h1 b)"
      unfolding h1_def by (intro allI contentOnly_modify) (simp_all add: contentOnly_def)
    have l1: "length h1 = length h" by (simp add: h1_def)
    show ?thesis
    proof (cases "f_contentResolver (obj_at h this)")
      case (Some r)
      have res: "h' = modify h1 this (\<lambda>ob. ob\<lparr> f_content := r (f_path (obj_at h1 this)) \<rparr>)"
        using "1.prems" None Some
        by (subst (asm) VirtualFile_content.simps) (auto simp: Let_def h1_def[symmetric])
      have "\<forall>b. contentOnly (obj_at h1 b) (obj_at h' b)"
        unfolding res by (intro allI contentOnly_modify) (simp_all add: contentOnly_def)
      then show ?thesis using c1 l1 res contentOnly_trans by (metis length_modify)
    next
      case rNone: None
      show ?thesis
      proof (cases "f_shadowRoot (obj_at h this)")
        case None2: None
        have "h' = h1"
          using "1.prems" None rNone None2
          by (subst (asm) VirtualFile_content.simps) (simp add: Let_def h1_def[symmetric])
        then show ?thesis using c1 l1 by simp
      next
        case (Some s)
        obtain h2 c where rec: "VirtualFile_content h1 s = (h2, c)"
          by (cases "VirtualFile_content h1 s")
        have ih: "length h2 = length h1 \<and> (\<forall>b. contentOnly (obj_at h1 b) (obj_at h2 b))"
          using "1.IH"[OF None refl refl h1_def rNone Some rec] .
        have res: "h' = modify h2 this (\<lambda>ob. ob\<lparr> f_content := c \<rparr>)"
          using "1.prems" None rNone Some rec
          by (subst (asm) VirtualFile_content.simps) (auto simp: Let_def h1_def[symmetric])
        have "\<forall>b. contentOnly (obj_at h2 b) (obj_at h' b)"
          unfolding res by (intro allI contentOnly_modify) (simp_all add: contentOnly_def)
        then have "\<forall>b. contentOnly (obj_at h b) (obj_at h' b)"
          using c1 ih contentOnly_trans by blast
        then show ?thesis using ih l1 res by simp
      qed
    qed
  qed
qed

lemma content_value:
  "VirtualFile_content h a = (h', v) \<Longrightarrow> settled h' a v"
proof (cases "f_content (obj_at h a)")
  case (Some c)
  assume "VirtualFile_content h a = (h', v)"
  then have "h' = h" "v = Some c" using VirtualFile_content_known[OF Some] by simp_all
  then show ?thesis using Some by (simp add: settled_def)
next
  case None
  assume run: "VirtualFile_content h a = (h', v)"
  define h1 where "h1 = modify h a (\<lambda>ob. ob\<lparr> f_contentResolver := None, f_shadowRoot := None \<rparr>)"
  have cleared: "f_contentResolver (obj_at h1 a) = None" "f_shadowRoot (obj_at h1 a) = None"
    "f_content (obj_at h1 a) = None"
    using None unfolding h1_def by (cases "a < length h"; simp add: obj_at_def modify_def noObject_def)+
  show ?thesis
  proof (cases "f_contentResolver (obj_at h a)")
    case (Some r)
    then have inb: "a < length h1" using content_inb[of h a] by (simp add: h1_def)
    have res: "h' = modify h1 a (\<lambda>ob. ob\<lparr> f_content := v \<rparr>)"
      using run None Some
      by (subst (asm) VirtualFile_content.simps) (auto simp: Let_def h1_def[symmetric])
    show ?thesis unfolding res settled_def using inb cleared by (simp add: obj_at_modify_same)
  next
    case rNone: None
    show ?thesis
    proof (cases "f_shadowRoot (obj_at h a)")
      case None2: None
      have "h' = h1" "v = None"
        using run None rNone None2
        by (subst (asm) VirtualFile_content.simps, simp add: Let_def h1_def[symmetric])+
      then show ?thesis using cleared by (simp add: settled_def)
    next
      case (Some s)
      then have inb: "a < length h1" using content_inb[of h a] by (simp add: h1_def)
      obtain h2 c where rec: "VirtualFile_content h1 s = (h2, c)"
        by (cases "VirtualFile_content h1 s")
      note eff = content_effect[OF rec]
      have res: "h' = modify h2 a (\<lambda>ob. ob\<lparr> f_content := v \<rparr>)"
        using run None rNone Some rec
        by (subst (asm) VirtualFile_content.simps) (auto simp: Let_def h1_def[symmetric])
      have "contentOnly (obj_at h1 a) (obj_at h2 a)" using eff by blast
      then have "f_contentResolver (obj_at h2 a) = None" "f_shadowRoot (obj_at h2 a) = None"
        using cleared by (simp_all add: contentOnly_def)
      moreover have "a < length h2" using inb eff by simp
      ultimately show ?thesis unfolding res settled_def by (simp add: obj_at_modify_same)
    qed
  qed
qed

lemma settled_read: "settled h a v \<Longrightarrow> snd (VirtualFile_content h a) = v"
  by (subst VirtualFile_content.simps) (auto simp: settled_def Let_def split: option.splits)

lemma settled_frame: "settled h a v \<Longrightarrow> obj_at h' a = obj_at h a \<Longrightarrow> settled h' a v"
  by (simp add: settled_def)

text \<open>Reading a clone that has not been read yet reads the file it was cloned from.\<close>

lemma clone_read:
  assumes "f_content (obj_at h k) = None" "f_contentResolver (obj_at h k) = None"
    "f_shadowRoot (obj_at h k) = Some f" "k \<noteq> f"
    "VirtualFile_content h k = (hr, v)"
  shows "snd (VirtualFile_content hr f) = v" "settled hr k v"
proof -
  define h1 where "h1 = modify h k (\<lambda>ob. ob\<lparr> f_contentResolver := None, f_shadowRoot := None \<rparr>)"
  obtain h2 c where rec: "VirtualFile_content h1 f = (h2, c)"
    by (cases "VirtualFile_content h1 f")
  have res: "hr = modify h2 k (\<lambda>ob. ob\<lparr> f_content := c \<rparr>)" "v = c"
    using assms(1,2,3,5) rec
    by (subst (asm) VirtualFile_content.simps, auto simp: Let_def h1_def[symmetric])+
  have "settled h2 f c" using rec by (rule content_value)
  moreover have "obj_at hr f = obj_at h2 f" unfolding res using assms(4) by (simp add: obj_at_modify_other)
  ultimately have "settled hr f c" using settled_frame by blast
  then show "snd (VirtualFile_content hr f) = v" using res(2) settled_read by blast
  show "settled hr k v" using assms(5) by (rule content_value)
qed

subsection \<open>A mutation of a directory writes the directory and its children\<close>

lemma directory_inb: "classOf h x = VirtualDirectory \<Longrightarrow> x < length h"
  by (cases "x < length h") (simp_all add: classOf_def obj_at_def noObject_def)

lemma getFileSystemEntry_known:
  assumes "classOf h x = VirtualDirectory" "f_entries (obj_at h x) = Some xs"
  shows "getFileSystemEntry env h x name =
           (h, find (\<lambda>entry. sameName env h (f_fileSystem (obj_at h x)) (f_name (obj_at h entry)) name) xs)"
  using assms entries_known[OF assms(2)]
  by (simp add: getFileSystemEntry_def getFileSystemEntries_def isVirtualFileSystem_def)

lemma obj_at_alloc_old: "a < length h \<Longrightarrow> obj_at (h @ [ob]) a = obj_at h a"
  by (simp add: obj_at_def nth_append)

lemma entries_alloc_known:
  "f_entries (obj_at h x) = Some xs \<Longrightarrow> x < length h \<Longrightarrow> entries (h @ [ob]) x = (h @ [ob], xs)"
  by (rule entries_known) (simp add: obj_at_alloc_old)

lemma push_frame: "a \<noteq> x \<Longrightarrow> obj_at (pushEntry h x e) a = obj_at h a"
  by (simp add: pushEntry_def obj_at_modify_other)

lemma addDirectory_frame:
  assumes "classOf h x = VirtualDirectory" "f_entries (obj_at h x) = Some xs" "a < length h" "a \<noteq> x"
  shows "obj_at (heapAfter (VirtualDirectory_addDirectory env h x name r)) a = obj_at h a"
proof -
  have inb: "x < length h" using assms(1) by (rule directory_inb)
  note g = getFileSystemEntry_known[OF assms(1,2), of env name]
  show ?thesis
    using assms(3,4) inb
    by (auto simp: VirtualDirectory_addDirectory_def g heapAfter_def newVirtualDirectory_def alloc_def
          entries_alloc_known[OF assms(2)] push_frame obj_at_alloc_old Let_def
        split: option.splits)
qed

lemma addFile_frame:
  assumes "classOf h x = VirtualDirectory" "f_entries (obj_at h x) = Some xs" "a < length h" "a \<noteq> x"
  shows "obj_at (heapAfter (VirtualDirectory_addFile env h x name c)) a = obj_at h a"
proof -
  have inb: "x < length h" using assms(1) by (rule directory_inb)
  note g = getFileSystemEntry_known[OF assms(1,2), of env name]
  show ?thesis
    using assms(3,4) inb
    by (auto simp: VirtualDirectory_addFile_def g heapAfter_def newVirtualFile_def alloc_def
          entries_alloc_known[OF assms(2)] push_frame obj_at_alloc_old Let_def
        split: option.splits)
qed

lemma addSymlink_frame:
  assumes "classOf h x = VirtualDirectory" "f_entries (obj_at h x) = Some xs" "a < length h" "a \<noteq> x"
  shows "obj_at (heapAfter (VirtualDirectory_addSymlink env h x name (TargetEntry t))) a = obj_at h a"
proof -
  have inb: "x < length h" using assms(1) by (rule directory_inb)
  note g = getFileSystemEntry_known[OF assms(1,2), of env name]
  show ?thesis
    using assms(3,4) inb
    by (auto simp: VirtualDirectory_addSymlink_def g heapAfter_def newVirtualFileSymlink_def
          newVirtualDirectorySymlink_def alloc_def
          entries_alloc_known[OF assms(2)] push_frame obj_at_alloc_old Let_def
        split: option.splits)
qed

lemma removeEntry_frame:
  assumes "f_entries (obj_at h x) = Some xs" "a \<noteq> x"
  shows "obj_at (heapAfter (removeEntry env h x name inst)) a = obj_at h a"
  using assms(2) entries_known[OF assms(1)]
  by (auto simp: removeEntry_def heapAfter_def obj_at_modify_other split: option.splits)

lemma mutate_frame:
  assumes "classOf h x = VirtualDirectory" "f_entries (obj_at h x) = Some xs"
    "a < length h" "a \<noteq> x" "a \<notin> set xs"
  shows "obj_at (mutate env h x m) a = obj_at h a"
proof -
  have own: "ownEntries h x = xs" using assms(2) by (simp add: ownEntries_def)
  show ?thesis
  proof (cases m)
    case (AddDirectory name r)
    then show ?thesis using addDirectory_frame[OF assms(1-4)] by (simp add: mutate_def)
  next
    case (AddFile name c)
    then show ?thesis using addFile_frame[OF assms(1-4)] by (simp add: mutate_def)
  next
    case (AddSymlink name t)
    then show ?thesis using addSymlink_frame[OF assms(1-4)] by (simp add: mutate_def)
  next
    case (RemoveDirectory name)
    then show ?thesis using removeEntry_frame[OF assms(2,4)]
      by (simp add: mutate_def VirtualDirectory_removeDirectory_def)
  next
    case (RemoveFile name)
    then show ?thesis using removeEntry_frame[OF assms(2,4)]
      by (simp add: mutate_def VirtualDirectory_removeFile_def)
  next
    case MakeReadOnly
    then show ?thesis using assms(4) by (simp add: mutate_def makeReadOnly_def obj_at_modify_other)
  next
    case (SetContent i v)
    have "i < length xs \<Longrightarrow> a \<noteq> xs ! i" using assms(5) by auto
    then show ?thesis using SetContent own
      by (auto simp: mutate_def VirtualFile_setContent_def obj_at_modify_other split: option.splits)
  next
    case (SetTarget i t)
    have "i < length xs \<Longrightarrow> a \<noteq> xs ! i" using assms(5) by auto
    then show ?thesis using SetTarget own
      by (auto simp: mutate_def setTarget_def obj_at_modify_other split: option.splits)
  next
    case (MakeChildReadOnly i)
    have "i < length xs \<Longrightarrow> a \<noteq> xs ! i" using assms(5) by auto
    then show ?thesis using MakeChildReadOnly own
      by (auto simp: mutate_def makeReadOnly_def obj_at_modify_other)
  qed
qed

subsection \<open>What clone and the loops of entries write\<close>

lemma isEntry_inb: "isEntry h a \<Longrightarrow> a < length h"
  by (cases "a < length h")
     (simp_all add: isEntry_def isVirtualDirectory_def isVirtualFile_def classOf_def obj_at_def noObject_def)

lemma isEntry_class:
  "isEntry h a = (classOf h a \<noteq> VirtualFileSystem \<and> classOf h a \<noteq> NoObject)"
  by (cases "classOf h a") (simp_all add: isEntry_def isVirtualDirectory_def isVirtualFile_def)

lemma root_old:
  assumes "root h fs = (h', r)" "b < length h" "b \<noteq> fs"
  shows "obj_at h' b = obj_at h b" "length h \<le> length h'"
  using assms
  by (auto simp: root_def newVirtualDirectory_def alloc_def Let_def obj_at_modify obj_at_append
        makeReadOnly_def split: option.splits if_splits)

lemma VirtualFileSystem_clone_old:
  assumes "VirtualFileSystem_clone h entry = (h', k)"
  shows "k = length h" "length h < length h'"
    "\<And>b. b < length h \<Longrightarrow> b \<noteq> entry \<Longrightarrow> obj_at h' b = obj_at h b"
proof -
  define h1 where "h1 = fst (newVirtualFileSystem h (f_currentDirectory (obj_at h entry))
                       (f_useCaseSensitiveFileNames (obj_at h entry)))"
  obtain h2 r where rt: "root h1 entry = (h2, r)" by (cases "root h1 entry")
  obtain h3 c where cl: "VirtualDirectory_clone h2 r (length h) = (h3, c)"
    by (cases "VirtualDirectory_clone h2 r (length h)")
  have l1: "length h1 = Suc (length h)" by (simp add: h1_def newVirtualFileSystem_def alloc_def)
  have res: "h' = modify h3 (length h) (\<lambda>ob. ob\<lparr> f_root := Some c \<rparr>)" "k = length h"
    using assms rt cl
    by (auto simp: VirtualFileSystem_clone_def newVirtualFileSystem_def alloc_def h1_def Let_def)
  show "k = length h" by (rule res)
  have l2: "length h1 \<le> length h2" using rt root_old(2)[of h1 entry h2 r] 
    by (cases "f_root (obj_at h1 entry)")
       (auto simp: root_def newVirtualDirectory_def alloc_def Let_def makeReadOnly_def split: if_splits)
  have l3: "length h3 = Suc (length h2)"
    using cl by (auto simp: VirtualDirectory_clone_def newVirtualDirectory_def alloc_def)
  show "length h < length h'" using res l1 l2 l3 by simp
  fix b assume b: "b < length h" "b \<noteq> entry"
  have "obj_at h1 b = obj_at h b"
    using b by (simp add: h1_def newVirtualFileSystem_def alloc_def obj_at_append)
  moreover have "obj_at h2 b = obj_at h1 b"
    using rt b l1 by (intro root_old(1)[of h1 entry h2 r]) simp_all
  moreover have "obj_at h3 b = obj_at h2 b"
    using cl b l1 l2
    by (auto simp: VirtualDirectory_clone_def newVirtualDirectory_def alloc_def obj_at_modify obj_at_append)
  moreover have "obj_at h' b = obj_at h3 b" using b by (simp add: res obj_at_modify)
  ultimately show "obj_at h' b = obj_at h b" by simp
qed

lemma clone_old:
  assumes "clone h entry this = (h', k)"
  shows "length h \<le> length h'"
    and "\<And>b. b < length h \<Longrightarrow> isEntry h b \<Longrightarrow> obj_at h' b = obj_at h b"
    and "(classOf h entry = NoObject \<and> k = entry \<and> h' = h) \<or> (length h \<le> k \<and> k < length h')"
proof -
  have all: "length h \<le> length h'
      \<and> (\<forall>b. b < length h \<longrightarrow> isEntry h b \<longrightarrow> obj_at h' b = obj_at h b)
      \<and> ((classOf h entry = NoObject \<and> k = entry \<and> h' = h) \<or> (length h \<le> k \<and> k < length h'))"
  proof (cases "classOf h entry")
    case VirtualFileSystem
    then have c: "VirtualFileSystem_clone h entry = (h', k)" using assms by (simp add: clone_def)
    note v = VirtualFileSystem_clone_old[OF c]
    have "\<And>b. b < length h \<Longrightarrow> isEntry h b \<Longrightarrow> obj_at h' b = obj_at h b"
      using v(3) VirtualFileSystem by (auto simp: isEntry_class)
    then show ?thesis using v(1,2) by simp
  next
    case VirtualDirectory
    then show ?thesis using assms
      by (auto simp: clone_def VirtualDirectory_clone_def newVirtualDirectory_def alloc_def
            obj_at_modify obj_at_append)
  next
    case VirtualDirectorySymlink
    then show ?thesis using assms
      by (auto simp: clone_def VirtualDirectorySymlink_clone_def newVirtualDirectorySymlink_def
            alloc_def obj_at_modify obj_at_append)
  next
    case VirtualFile
    then show ?thesis using assms
      by (auto simp: clone_def VirtualFile_clone_def newVirtualFile_def alloc_def
            obj_at_modify obj_at_append)
  next
    case VirtualFileSymlink
    then show ?thesis using assms
      by (auto simp: clone_def VirtualFileSymlink_clone_def newVirtualFileSymlink_def
            alloc_def obj_at_modify obj_at_append)
  next
    case NoObject
    then show ?thesis using assms by (simp add: clone_def)
  qed
  then show "length h \<le> length h'"
    and "\<And>b. b < length h \<Longrightarrow> isEntry h b \<Longrightarrow> obj_at h' b = obj_at h b"
    and "(classOf h entry = NoObject \<and> k = entry \<and> h' = h) \<or> (length h \<le> k \<and> k < length h')"
    by simp_all
qed

text \<open>What \<open>clone\<close> allocates for a file, a directory or a symlink.\<close>

lemma clone_new:
  assumes "clone h entry this = (h', k)" "isEntry h entry"
  shows "k = length h" "length h' = Suc (length h)" "cloneImage h entry (obj_at h' k)"
    "\<not> f_readOnly (obj_at h' k)"
proof -
  have "k = length h \<and> length h' = Suc (length h) \<and> cloneImage h entry (obj_at h' k)
        \<and> \<not> f_readOnly (obj_at h' k)"
  proof (cases "classOf h entry")
    case VirtualFileSystem
    then show ?thesis using assms(2) by (simp add: isEntry_class)
  next
    case VirtualDirectory
    then show ?thesis using assms
      by (auto simp: clone_def VirtualDirectory_clone_def newVirtualDirectory_def alloc_def
            obj_at_modify obj_at_append cloneImage_def isSymlink_def newEntry_def)
  next
    case VirtualDirectorySymlink
    then show ?thesis using assms
      by (auto simp: clone_def VirtualDirectorySymlink_clone_def newVirtualDirectorySymlink_def
            alloc_def obj_at_modify obj_at_append cloneImage_def isSymlink_def newEntry_def)
  next
    case VirtualFile
    then show ?thesis using assms
      by (auto simp: clone_def VirtualFile_clone_def newVirtualFile_def alloc_def
            obj_at_modify obj_at_append cloneImage_def isSymlink_def newEntry_def)
  next
    case VirtualFileSymlink
    then show ?thesis using assms
      by (auto simp: clone_def VirtualFileSymlink_clone_def newVirtualFileSymlink_def
            alloc_def obj_at_modify obj_at_append cloneImage_def isSymlink_def newEntry_def)
  next
    case NoObject
    then show ?thesis using assms(2) by (simp add: isEntry_class)
  qed
  then show "k = length h" "length h' = Suc (length h)" "cloneImage h entry (obj_at h' k)"
    "\<not> f_readOnly (obj_at h' k)"
    by blast+
qed

lemma cloneImage_readOnly [simp]:
  "cloneImage h e (ob\<lparr> f_readOnly := r \<rparr>) = cloneImage h e ob"
  by (simp add: cloneImage_def)

lemma cloneImage_grows:
  assumes "grows h h'" "e < length h"
  shows "cloneImage h' e ob = cloneImage h e ob"
  using grows_class[OF assms] grows_name[OF assms] grows_target[OF assms] grows_isSymlink[OF assms]
  by (simp add: cloneImage_def)

lemma isEntry_grows: "grows h h' \<Longrightarrow> a < length h \<Longrightarrow> isEntry h' a = isEntry h a"
  by (simp add: isEntry_def grows_isVirtualDirectory grows_isVirtualFile)

lemma isEntry_same: "obj_at h' a = obj_at h a \<Longrightarrow> isEntry h' a = isEntry h a"
  by (simp add: isEntry_def isVirtualDirectory_def isVirtualFile_def classOf_def)

text \<open>One round of the loop of the shadow branch.\<close>

lemma cloneEntries_Cons:
  "cloneEntries h this (entry # rest) = cloneEntries (fst (cloneStep h this entry)) this rest"
  by (simp add: cloneStep_def Let_def split: prod.splits)

lemma cloneStep_facts:
  assumes "cloneStep h this entry = (h3, k)" "closed h" "entry < length h"
    "this < length h" "isEntry h this"
  shows "grows h h3"
    and "\<And>b. b < length h \<Longrightarrow> b \<noteq> this \<Longrightarrow> isEntry h b \<Longrightarrow> obj_at h3 b = obj_at h b"
    and "ownEntries h3 this = ownEntries h this @ [k]"
    and "(classOf h entry = NoObject \<and> k = entry) \<or> (length h \<le> k \<and> k < length h3)"
    and "isEntry h entry \<Longrightarrow> k = length h \<and> k < length h3 \<and> cloneImage h entry (obj_at h3 k)"
proof -
  obtain h1 c where cl: "clone h entry this = (h1, c)" by (cases "clone h entry this")
  define h2 where "h2 = (if isReadOnly h1 this then makeReadOnly h1 c else h1)"
  have res: "h3 = pushEntry h2 this c" "k = c"
    using assms(1) cl by (auto simp: cloneStep_def h2_def)
  note ce = clone_eq[OF cl assms(2,3)]
  note co = clone_old[OF cl]
  have l2: "length h2 = length h1" by (simp add: h2_def makeReadOnly_def)
  have l3: "length h3 = length h1" by (simp add: res pushEntry_def l2)
  have g12: "grows h1 h2"
    unfolding h2_def using grows_closed[OF ce(1)] by (simp add: grows_makeReadOnly grows_refl)
  have g23: "grows h2 h3"
    unfolding res using grows_closed[OF g12] ce(2) l2 by (intro grows_pushEntry) simp_all
  show g: "grows h h3" using ce(1) g12 g23 grows_trans by blast
  have kc: "(classOf h entry = NoObject \<and> c = entry) \<or> (length h \<le> c \<and> c < length h1)"
    using co(3) by blast
  show "(classOf h entry = NoObject \<and> k = entry) \<or> (length h \<le> k \<and> k < length h3)"
    using kc res l3 by simp
  have ne: "b \<noteq> c" if "b < length h" "isEntry h b" for b
    using kc that by (auto simp: isEntry_class)
  have old2: "obj_at h2 b = obj_at h b" if "b < length h" "isEntry h b" for b
    using co(2)[OF that] ne[OF that] by (simp add: h2_def makeReadOnly_def obj_at_modify)
  show "obj_at h3 b = obj_at h b" if "b < length h" "b \<noteq> this" "isEntry h b" for b
    using old2[OF that(1,3)] that(2) by (simp add: res pushEntry_def obj_at_modify)
  have "ownEntries h2 this = ownEntries h this"
    using old2[OF assms(4,5)] by (simp add: ownEntries_def)
  moreover have "this < length h2" using assms(4) co(1) l2 by simp
  ultimately show "ownEntries h3 this = ownEntries h this @ [k]"
    by (simp add: res pushEntry_def ownEntries_def obj_at_modify)
  show "k = length h \<and> k < length h3 \<and> cloneImage h entry (obj_at h3 k)" if e: "isEntry h entry"
  proof -
    note cn = clone_new[OF cl e]
    have "c \<noteq> this" using cn(1) assms(4) by simp
    then have "obj_at h3 c = obj_at h2 c" by (simp add: res pushEntry_def obj_at_modify)
    moreover have "cloneImage h entry (obj_at h2 c)"
      using cn(3) by (auto simp: h2_def makeReadOnly_def obj_at_modify)
    ultimately show ?thesis using cn(1,2) res l3 by simp
  qed
qed

lemma cloneEntries_old:
  assumes "closed h" "\<forall>e \<in> set es. e < length h" "this < length h" "isEntry h this"
    "b < length h" "b \<noteq> this" "isEntry h b"
  shows "obj_at (cloneEntries h this es) b = obj_at h b"
  using assms
proof (induction es arbitrary: h)
  case Nil
  then show ?case by simp
next
  case (Cons entry rest)
  obtain h3 k where st: "cloneStep h this entry = (h3, k)" by (cases "cloneStep h this entry")
  have e: "entry < length h" using Cons.prems(2) by simp
  note f = cloneStep_facts[OF st Cons.prems(1) e Cons.prems(3,4)]
  have len: "length h \<le> length h3" using f(1) by (rule grows_length)
  have b3: "obj_at h3 b = obj_at h b" using f(2) Cons.prems(5,6,7) by blast
  have "obj_at (cloneEntries h3 this rest) b = obj_at h3 b"
  proof (rule Cons.IH)
    show "closed h3" using f(1) by (rule grows_closed)
    show "\<forall>e \<in> set rest. e < length h3" using Cons.prems(2) len by auto
    show "this < length h3" using Cons.prems(3) len by simp
    show "isEntry h3 this" using isEntry_grows[OF f(1) Cons.prems(3)] Cons.prems(4) by simp
    show "b < length h3" using Cons.prems(5) len by simp
    show "b \<noteq> this" by (rule Cons.prems(6))
    show "isEntry h3 b" using isEntry_same[OF b3] Cons.prems(7) by simp
  qed
  moreover have "cloneEntries h this (entry # rest) = cloneEntries h3 this rest"
    unfolding cloneEntries_Cons st by simp
  ultimately show ?case using b3 by simp
qed

lemma cloneEntries_shape:
  assumes "closed h" "\<forall>e \<in> set es. e < length h" "this < length h" "isEntry h this"
  shows "\<exists>ks. ownEntries (cloneEntries h this es) this = ownEntries h this @ ks
           \<and> length ks = length es
           \<and> (\<forall>i < length es. (classOf h (es ! i) = NoObject \<and> ks ! i = es ! i)
                  \<or> (length h \<le> ks ! i \<and> ks ! i < length (cloneEntries h this es)))
           \<and> (\<forall>i < length es. isEntry h (es ! i)
                  \<longrightarrow> length h \<le> ks ! i \<and> ks ! i < length (cloneEntries h this es)
                      \<and> cloneImage h (es ! i) (obj_at (cloneEntries h this es) (ks ! i)))"
  using assms
proof (induction es arbitrary: h)
  case Nil
  then show ?case by simp
next
  case (Cons entry rest)
  obtain h3 k where st: "cloneStep h this entry = (h3, k)" by (cases "cloneStep h this entry")
  have e: "entry < length h" using Cons.prems(2) by simp
  note f = cloneStep_facts[OF st Cons.prems(1) e Cons.prems(3,4)]
  have len: "length h \<le> length h3" using f(1) by (rule grows_length)
  define h' where "h' = cloneEntries h3 this rest"
  have fin: "cloneEntries h this (entry # rest) = h'"
    unfolding cloneEntries_Cons st h'_def by simp
  have c3: "closed h3" using f(1) by (rule grows_closed)
  have r3: "\<forall>e \<in> set rest. e < length h3" using Cons.prems(2) len by auto
  have t3: "this < length h3" using Cons.prems(3) len by simp
  have i3: "isEntry h3 this" using isEntry_grows[OF f(1) Cons.prems(3)] Cons.prems(4) by simp
  have g3': "grows h3 h'" unfolding h'_def using c3 r3 by (rule cloneEntries_grows)
  have len': "length h3 \<le> length h'" using g3' by (rule grows_length)
  obtain ks where ks: "ownEntries h' this = ownEntries h3 this @ ks" "length ks = length rest"
    "\<forall>i < length rest. (classOf h3 (rest ! i) = NoObject \<and> ks ! i = rest ! i)
        \<or> (length h3 \<le> ks ! i \<and> ks ! i < length h')"
    "\<forall>i < length rest. isEntry h3 (rest ! i)
        \<longrightarrow> length h3 \<le> ks ! i \<and> ks ! i < length h' \<and> cloneImage h3 (rest ! i) (obj_at h' (ks ! i))"
    using Cons.IH[OF c3 r3 t3 i3] unfolding h'_def by blast
  have own: "ownEntries h' this = ownEntries h this @ (k # ks)" using ks(1) f(3) by simp
  have fresh: "(classOf h ((entry # rest) ! i) = NoObject \<and> (k # ks) ! i = (entry # rest) ! i)
        \<or> (length h \<le> (k # ks) ! i \<and> (k # ks) ! i < length h')"
    if "i < length (entry # rest)" for i
  proof (cases i)
    case 0
    then show ?thesis using f(4) len' by auto
  next
    case (Suc j)
    then have j: "j < length rest" using that by simp
    then have rj: "rest ! j < length h" using Cons.prems(2) by simp
    have "classOf h3 (rest ! j) = classOf h (rest ! j)" using f(1) rj by (rule grows_class)
    then show ?thesis using ks(3) j Suc len by fastforce
  qed
  have image: "length h \<le> (k # ks) ! i \<and> (k # ks) ! i < length h'
        \<and> cloneImage h ((entry # rest) ! i) (obj_at h' ((k # ks) ! i))"
    if "i < length (entry # rest)" "isEntry h ((entry # rest) ! i)" for i
  proof (cases i)
    case 0
    then have ie: "isEntry h entry" using that(2) by simp
    have k1: "k = length h" and k2: "k < length h3" and k3: "cloneImage h entry (obj_at h3 k)"
      using f(5)[OF ie] by blast+
    have kt: "k \<noteq> this" using k1 Cons.prems(3) by simp
    have "f_class (obj_at h3 k) = classOf h entry" using k3 by (simp add: cloneImage_def)
    then have ik: "isEntry h3 k" using ie by (simp add: isEntry_class classOf_def)
    have "obj_at h' k = obj_at h3 k"
      unfolding h'_def using c3 r3 t3 i3 k2 kt ik by (intro cloneEntries_old) simp_all
    then have "cloneImage h entry (obj_at h' k)" using k3 by simp
    moreover have "length h \<le> k" "k < length h'" using k1 k2 len' by simp_all
    ultimately show ?thesis unfolding 0 by simp
  next
    case (Suc j)
    then have j: "j < length rest" using that by simp
    then have rj: "rest ! j < length h" using Cons.prems(2) by simp
    have "isEntry h3 (rest ! j)" using isEntry_grows[OF f(1) rj] that(2) Suc by simp
    then have "length h3 \<le> ks ! j \<and> ks ! j < length h' \<and> cloneImage h3 (rest ! j) (obj_at h' (ks ! j))"
      using ks(4) j by blast
    then show ?thesis using cloneImage_grows[OF f(1) rj] Suc len by simp
  qed
  show ?case
    unfolding fin
    by (rule exI[of _ "k # ks"]) (use own ks(2) fresh image in simp)
qed

lemma addResolverDirectories_shape:
  assumes "this < length h"
  shows "length h \<le> length (addResolverDirectories h this r dirs)
    \<and> (\<forall>b < length h. b \<noteq> this \<longrightarrow> obj_at (addResolverDirectories h this r dirs) b = obj_at h b)
    \<and> (\<exists>ks. ownEntries (addResolverDirectories h this r dirs) this = ownEntries h this @ ks
            \<and> (\<forall>k \<in> set ks. length h \<le> k))"
  using assms
proof (induction dirs arbitrary: h)
  case Nil
  then show ?case by simp
next
  case (Cons dir dirs)
  define ob where "ob = (newEntry h VirtualDirectory this dir)\<lparr> f_resolver := Some r \<rparr>"
  define h1 where "h1 = h @ [ob]"
  define h2 where "h2 = (if isReadOnly h1 this then makeReadOnly h1 (length h) else h1)"
  define h3 where "h3 = pushEntry h2 this (length h)"
  have step: "addResolverDirectories h this r (dir # dirs) = addResolverDirectories h3 this r dirs"
    by (simp add: newVirtualDirectory_def alloc_def ob_def h1_def h2_def h3_def Let_def)
  have l3: "length h3 = Suc (length h)"
    by (simp add: h3_def h2_def h1_def pushEntry_def makeReadOnly_def)
  have old: "obj_at h3 b = obj_at h b" if "b < length h" "b \<noteq> this" for b
    using that by (simp add: h3_def h2_def h1_def pushEntry_def makeReadOnly_def obj_at_modify obj_at_append)
  have "obj_at h2 this = obj_at h this"
    using Cons.prems by (simp add: h2_def h1_def makeReadOnly_def obj_at_modify obj_at_append)
  then have own: "ownEntries h3 this = ownEntries h this @ [length h]"
    using Cons.prems
    by (simp add: h3_def pushEntry_def ownEntries_def obj_at_modify h2_def h1_def makeReadOnly_def)
  have t3: "this < length h3" using Cons.prems l3 by simp
  note ih = Cons.IH[OF t3]
  obtain ks where ks: "ownEntries (addResolverDirectories h3 this r dirs) this = ownEntries h3 this @ ks"
    "\<forall>k \<in> set ks. length h3 \<le> k"
    using ih by blast
  have "ownEntries (addResolverDirectories h3 this r dirs) this = ownEntries h this @ (length h # ks)"
    using ks(1) own by simp
  moreover have "\<forall>k \<in> set (length h # ks). length h \<le> k" using ks(2) l3 by auto
  ultimately have ex: "\<exists>ks. ownEntries (addResolverDirectories h3 this r dirs) this = ownEntries h this @ ks
            \<and> (\<forall>k \<in> set ks. length h \<le> k)"
    by blast
  have "\<forall>b < length h. b \<noteq> this \<longrightarrow> obj_at (addResolverDirectories h3 this r dirs) b = obj_at h b"
    using ih old l3 by simp
  moreover have "length h \<le> length (addResolverDirectories h3 this r dirs)" using ih l3 by simp
  ultimately show ?case unfolding step using ex by blast
qed

lemma addResolverFiles_shape:
  assumes "this < length h"
  shows "length h \<le> length (addResolverFiles h this r files)
    \<and> (\<forall>b < length h. b \<noteq> this \<longrightarrow> obj_at (addResolverFiles h this r files) b = obj_at h b)
    \<and> (\<exists>ks. ownEntries (addResolverFiles h this r files) this = ownEntries h this @ ks
            \<and> (\<forall>k \<in> set ks. length h \<le> k))"
  using assms
proof (induction files arbitrary: h)
  case Nil
  then show ?case by simp
next
  case (Cons fname files)
  define ob where "ob = (newEntry h VirtualFile this fname)
       \<lparr> f_content := None, f_contentResolver := Some (getContent r) \<rparr>"
  define h1 where "h1 = h @ [ob]"
  define h2 where "h2 = (if isReadOnly h1 this then makeReadOnly h1 (length h) else h1)"
  define h3 where "h3 = pushEntry h2 this (length h)"
  have step: "addResolverFiles h this r (fname # files) = addResolverFiles h3 this r files"
    by (simp add: newVirtualFile_def alloc_def ob_def h1_def h2_def h3_def Let_def)
  have l3: "length h3 = Suc (length h)"
    by (simp add: h3_def h2_def h1_def pushEntry_def makeReadOnly_def)
  have old: "obj_at h3 b = obj_at h b" if "b < length h" "b \<noteq> this" for b
    using that by (simp add: h3_def h2_def h1_def pushEntry_def makeReadOnly_def obj_at_modify obj_at_append)
  have "obj_at h2 this = obj_at h this"
    using Cons.prems by (simp add: h2_def h1_def makeReadOnly_def obj_at_modify obj_at_append)
  then have own: "ownEntries h3 this = ownEntries h this @ [length h]"
    using Cons.prems
    by (simp add: h3_def pushEntry_def ownEntries_def obj_at_modify h2_def h1_def makeReadOnly_def)
  have t3: "this < length h3" using Cons.prems l3 by simp
  note ih = Cons.IH[OF t3]
  obtain ks where ks: "ownEntries (addResolverFiles h3 this r files) this = ownEntries h3 this @ ks"
    "\<forall>k \<in> set ks. length h3 \<le> k"
    using ih by blast
  have "ownEntries (addResolverFiles h3 this r files) this = ownEntries h this @ (length h # ks)"
    using ks(1) own by simp
  moreover have "\<forall>k \<in> set (length h # ks). length h \<le> k" using ks(2) l3 by auto
  ultimately have ex: "\<exists>ks. ownEntries (addResolverFiles h3 this r files) this = ownEntries h this @ ks
            \<and> (\<forall>k \<in> set ks. length h \<le> k)"
    by blast
  have "\<forall>b < length h. b \<noteq> this \<longrightarrow> obj_at (addResolverFiles h3 this r files) b = obj_at h b"
    using ih old l3 by simp
  moreover have "length h \<le> length (addResolverFiles h3 this r files)" using ih l3 by simp
  ultimately show ?case unfolding step using ex by blast
qed

lemma cloneStep_frame:
  assumes "cloneStep h this entry = (h3, k)" "b < length h" "b \<noteq> this" "isEntry h b"
  shows "obj_at h3 b = obj_at h b" "length h \<le> length h3"
proof -
  obtain h1 c where cl: "clone h entry this = (h1, c)" by (cases "clone h entry this")
  define h2 where "h2 = (if isReadOnly h1 this then makeReadOnly h1 c else h1)"
  have res: "h3 = pushEntry h2 this c"
    using assms(1) cl by (auto simp: cloneStep_def h2_def)
  note co = clone_old[OF cl]
  have "b \<noteq> c" using co(3) assms(2,4) by (auto simp: isEntry_class)
  then have "obj_at h2 b = obj_at h b"
    using co(2)[OF assms(2,4)] by (simp add: h2_def makeReadOnly_def obj_at_modify)
  then show "obj_at h3 b = obj_at h b" using assms(3) by (simp add: res pushEntry_def obj_at_modify)
  show "length h \<le> length h3" using co(1) by (simp add: res pushEntry_def h2_def makeReadOnly_def)
qed

lemma cloneEntries_frame:
  "b < length h \<Longrightarrow> b \<noteq> this \<Longrightarrow> isEntry h b \<Longrightarrow> obj_at (cloneEntries h this es) b = obj_at h b"
proof (induction es arbitrary: h)
  case Nil
  then show ?case by simp
next
  case (Cons entry rest)
  obtain h3 k where st: "cloneStep h this entry = (h3, k)" by (cases "cloneStep h this entry")
  note f = cloneStep_frame[OF st Cons.prems]
  have "obj_at (cloneEntries h3 this rest) b = obj_at h3 b"
    using Cons.prems f isEntry_same[OF f(1)] by (intro Cons.IH) simp_all
  moreover have "cloneEntries h this (entry # rest) = cloneEntries h3 this rest"
    unfolding cloneEntries_Cons st by simp
  ultimately show ?case using f(1) by simp
qed

lemma grows_materialise:
  assumes "closed h" "f_entries (obj_at h this) = None"
  shows "grows h (modify h this
           (\<lambda>ob. ob\<lparr> f_entries := Some [], f_resolver := None, f_shadowRoot := None \<rparr>))"
proof (rule grows_modify[OF assms(1)])
  assume inb: "this < length h"
  have "f_entries (h ! this) = None" using assms(2) inb by (simp add: obj_at_def)
  then show "stableObj (h ! this)
      ((h ! this)\<lparr>f_entries := Some [], f_resolver := None, f_shadowRoot := None\<rparr>)"
    by (simp add: stableObj_def)
  have "refsBelow (length h) (h ! this)" using inb assms(1) by (simp add: closed_refs)
  then show "refsBelow (length h)
      ((h ! this)\<lparr>f_entries := Some [], f_resolver := None, f_shadowRoot := None\<rparr>)"
    by (simp add: refsBelow_iff)
qed

text \<open>
  What the getter \<open>entries\<close> does when the directory is not materialised, branch by
  branch.
\<close>

lemma entries_unfold:
  assumes "f_entries (obj_at h this) = None"
    and "h1 = modify h this
             (\<lambda>ob. ob\<lparr> f_entries := Some [], f_resolver := None, f_shadowRoot := None \<rparr>)"
  shows "f_resolver (obj_at h this) = Some r \<Longrightarrow>
           entries h this =
             (let (files, directories) = getEntries r (f_path (obj_at h1 this));
                  h3 = addResolverFiles (addResolverDirectories h1 this r directories) this r files
              in (h3, ownEntries h3 this))"
    and "f_resolver (obj_at h this) = None \<Longrightarrow> f_shadowRoot (obj_at h this) = Some s \<Longrightarrow>
           entries h this =
             (let (h2, shadowEntries) = entries h1 s;
                  h3 = cloneEntries h2 this shadowEntries
              in (h3, ownEntries h3 this))"
    and "f_resolver (obj_at h this) = None \<Longrightarrow> f_shadowRoot (obj_at h this) = None \<Longrightarrow>
           entries h this = (h1, [])"
  using assms(1)
  by (subst entries.simps, simp add: Let_def assms(2) split: prod.splits)+

lemma entries_keeps:
  "closed h \<Longrightarrow> entries h this = (h', es) \<Longrightarrow> b < length h
   \<Longrightarrow> f_entries (obj_at h b) \<noteq> None \<Longrightarrow> isEntry h b \<Longrightarrow> obj_at h' b = obj_at h b"
proof (induction h this arbitrary: h' es rule: entries.induct)
  case (1 h this)
  show ?case
  proof (cases "f_entries (obj_at h this)")
    case (Some es0)
    then have "entries h this = (h, es0)" by (rule entries_known)
    then show ?thesis using "1.prems" by simp
  next
    case None
    then have inb: "this < length h" by (rule pending_inb)
    define h1 where "h1 = modify h this
        (\<lambda>ob. ob\<lparr> f_entries := Some [], f_resolver := None, f_shadowRoot := None \<rparr>)"
    have bt: "b \<noteq> this" using None "1.prems"(4) by auto
    have b1: "obj_at h1 b = obj_at h b" using bt by (simp add: h1_def obj_at_modify)
    have l1: "length h1 = length h" by (simp add: h1_def)
    have c1: "closed h1" unfolding h1_def using grows_materialise[OF "1.prems"(1) None] by (rule grows_closed)
    note u = entries_unfold[OF None h1_def]
    show ?thesis
    proof (cases "f_resolver (obj_at h this)")
      case (Some r)
      obtain files directories where ge: "getEntries r (f_path (obj_at h1 this)) = (files, directories)"
        by (cases "getEntries r (f_path (obj_at h1 this))")
      define h2 where "h2 = addResolverDirectories h1 this r directories"
      have res: "h' = addResolverFiles h2 this r files"
        using "1.prems"(2) u(1)[OF Some] ge by (simp add: h2_def Let_def)
      have t1: "this < length h1" using inb l1 by simp
      note d = addResolverDirectories_shape[OF t1, of r directories, folded h2_def]
      have t2: "this < length h2" using t1 d by simp
      note f = addResolverFiles_shape[OF t2, of r files, folded res]
      have "obj_at h2 b = obj_at h1 b" using d "1.prems"(3) bt l1 by simp
      moreover have "obj_at h' b = obj_at h2 b" using f d "1.prems"(3) bt l1 by simp
      ultimately show ?thesis using b1 by simp
    next
      case rNone: None
      show ?thesis
      proof (cases "f_shadowRoot (obj_at h this)")
        case None2: None
        have "h' = h1" using "1.prems"(2) u(3)[OF rNone None2] by simp
        then show ?thesis using b1 by simp
      next
        case (Some s)
        obtain h2 ses where rec: "entries h1 s = (h2, ses)" by (cases "entries h1 s")
        have res: "h' = cloneEntries h2 this ses"
          using "1.prems"(2) u(2)[OF rNone Some] rec by (simp add: Let_def)
        have bi1: "isEntry h1 b" using isEntry_same[OF b1] "1.prems"(5) by simp
        have b2: "obj_at h2 b = obj_at h1 b"
          using "1.IH"[OF None refl refl h1_def rNone Some c1 rec] "1.prems"(3,4) b1 bi1 l1
          by simp
        have g12: "grows h1 h2" using entries_eq[OF c1 rec] by blast
        have "b < length h2" using grows_length[OF g12] "1.prems"(3) l1 by simp
        moreover have "isEntry h2 b" using isEntry_same[OF b2] bi1 by simp
        ultimately have "obj_at h' b = obj_at h2 b"
          unfolding res using bt by (intro cloneEntries_frame)
        then show ?thesis using b2 b1 by simp
      qed
    qed
  qed
qed

lemma ownEntries_same: "obj_at h' a = obj_at h a \<Longrightarrow> ownEntries h' a = ownEntries h a"
  by (simp add: ownEntries_def)

lemma entries_not_pushed:
  assumes "closed h" "entries h a = (h', es)" "f_entries (obj_at h a) = None" "isEntry h a"
    "c < length h" "f_entries (obj_at h c) \<noteq> None" "isEntry h c"
  shows "c \<notin> set es"
proof -
  have inb: "a < length h" using assms(3) by (rule pending_inb)
  define h1 where "h1 = modify h a
      (\<lambda>ob. ob\<lparr> f_entries := Some [], f_resolver := None, f_shadowRoot := None \<rparr>)"
  have l1: "length h1 = length h" by (simp add: h1_def)
  have g01: "grows h h1" unfolding h1_def using assms(1,3) by (rule grows_materialise)
  have c1: "closed h1" using g01 by (rule grows_closed)
  have own1: "ownEntries h1 a = []" using inb by (simp add: h1_def ownEntries_def obj_at_modify)
  have t1: "a < length h1" using inb l1 by simp
  note u = entries_unfold[OF assms(3) h1_def]
  show ?thesis
  proof (cases "f_resolver (obj_at h a)")
    case (Some r)
    obtain files directories where ge: "getEntries r (f_path (obj_at h1 a)) = (files, directories)"
      by (cases "getEntries r (f_path (obj_at h1 a))")
    define h2 where "h2 = addResolverDirectories h1 a r directories"
    define h3 where "h3 = addResolverFiles h2 a r files"
    have res: "es = ownEntries h3 a"
      using assms(2) u(1)[OF Some] ge by (auto simp: h2_def h3_def Let_def)
    note d = addResolverDirectories_shape[OF t1, of r directories, folded h2_def]
    have t2: "a < length h2" using t1 d by simp
    note f = addResolverFiles_shape[OF t2, of r files, folded h3_def]
    obtain ks1 where ks1: "ownEntries h2 a = ownEntries h1 a @ ks1" "\<forall>k \<in> set ks1. length h1 \<le> k"
      using d by blast
    obtain ks2 where ks2: "ownEntries h3 a = ownEntries h2 a @ ks2" "\<forall>k \<in> set ks2. length h2 \<le> k"
      using f by blast
    have "length h1 \<le> length h2" using d by simp
    then have "\<forall>k \<in> set es. length h \<le> k"
      using ks1 ks2 own1 l1 unfolding res by fastforce
    then show ?thesis using assms(5) by auto
  next
    case rNone: None
    show ?thesis
    proof (cases "f_shadowRoot (obj_at h a)")
      case None
      then have "es = []" using assms(2) u(3)[OF rNone] by simp
      then show ?thesis by simp
    next
      case (Some s)
      obtain h2 ses where rec: "entries h1 s = (h2, ses)" by (cases "entries h1 s")
      define h3 where "h3 = cloneEntries h2 a ses"
      have res: "es = ownEntries h3 a"
        using assms(2) u(2)[OF rNone Some] rec by (auto simp: h3_def Let_def)
      note e = entries_eq[OF c1 rec]
      have g12: "grows h1 h2" using e by blast
      have c2: "closed h2" using g12 by (rule grows_closed)
      have g02: "grows h h2" using g01 g12 by (rule grows_trans)
      have ia1: "isEntry h1 a" using isEntry_grows[OF g01 inb] assms(4) by simp
      have "f_entries (obj_at h1 a) \<noteq> None" using inb by (simp add: h1_def obj_at_modify)
      then have a2: "obj_at h2 a = obj_at h1 a"
        using entries_keeps[OF c1 rec t1] ia1 by blast
      have own2: "ownEntries h2 a = []" using ownEntries_same[OF a2] own1 by simp
      have ses: "\<forall>e \<in> set ses. e < length h2" using closed_entries[OF c2] e by blast
      have t2: "a < length h2" using t1 grows_length[OF g12] by simp
      have ia2: "isEntry h2 a" using isEntry_same[OF a2] ia1 by simp
      obtain ks where ks: "ownEntries h3 a = ownEntries h2 a @ ks" "length ks = length ses"
        "\<forall>i < length ses. (classOf h2 (ses ! i) = NoObject \<and> ks ! i = ses ! i)
            \<or> (length h2 \<le> ks ! i \<and> ks ! i < length h3)"
        using cloneEntries_shape[OF c2 ses t2 ia2] unfolding h3_def by blast
      have c_class: "classOf h2 c \<noteq> NoObject"
        using grows_class[OF g02 assms(5)] assms(7) by (simp add: isEntry_class)
      have c_len: "c < length h2" using assms(5) grows_length[OF g02] by simp
      show ?thesis
      proof
        assume "c \<in> set es"
        then have "c \<in> set ks" using res ks(1) own2 by simp
        then obtain i where i: "i < length ks" "ks ! i = c" by (auto simp: in_set_conv_nth)
        then have "(classOf h2 (ses ! i) = NoObject \<and> c = ses ! i) \<or> length h2 \<le> c"
          using ks(2,3) by auto
        then show False using c_class c_len by auto
      qed
    qed
  qed
qed

subsection \<open>The clone after its first listing\<close>

lemma isEntry_directory: "classOf h a = VirtualDirectory \<Longrightarrow> isEntry h a"
  by (simp add: isEntry_def isVirtualDirectory_def)

lemma clone_structure:
  assumes "closed h" "classOf h d = VirtualDirectory"
    "VirtualDirectory_clone h d parent = (h1, c)" "entries h1 c = (h2, cs)"
  shows "\<exists>ds L. f_entries (obj_at h2 d) = Some ds \<and> f_entries (obj_at h2 c) = Some cs
           \<and> classOf h2 d = VirtualDirectory \<and> classOf h2 c = VirtualDirectory
           \<and> closed h2 \<and> length cs = length ds \<and> c \<noteq> d \<and> c \<notin> set ds
           \<and> L \<le> length h2 \<and> d < L \<and> c < L \<and> (\<forall>e \<in> set ds. e < L)
           \<and> (\<forall>i < length ds. (classOf h2 (ds ! i) = NoObject \<and> cs ! i = ds ! i) \<or> L \<le> cs ! i)
           \<and> (\<forall>i < length ds. isEntry h2 (ds ! i)
                  \<longrightarrow> L \<le> cs ! i \<and> cs ! i < length h2
                      \<and> cloneImage h2 (ds ! i) (obj_at h2 (cs ! i)))"
proof -
  have dl: "d < length h" using assms(2) by (rule directory_inb)
  define ob where "ob = (newEntry h VirtualDirectory parent (f_name (obj_at h d)))\<lparr> f_resolver := None \<rparr>"
  have h1: "h1 = modify (h @ [ob]) (length h) (\<lambda>ob. ob\<lparr> f_shadowRoot := Some d \<rparr>)"
    and c: "c = length h"
    using assms(3)
    by (auto simp: VirtualDirectory_clone_def newVirtualDirectory_def alloc_def ob_def)
  note ce = VirtualDirectory_clone_eq[OF assms(3,1)]
  have cl1: "closed h1" using ce(1) by (rule grows_closed)
  have cd: "c \<noteq> d" using c dl by simp
  have c_obj: "f_entries (obj_at h1 c) = None" "f_resolver (obj_at h1 c) = None"
    "f_shadowRoot (obj_at h1 c) = Some d" "classOf h1 c = VirtualDirectory"
    by (simp_all add: h1 c obj_at_modify obj_at_append ob_def classOf_def)
  have c1len: "c < length h1" using ce(2) .
  define h1' where "h1' = modify h1 c
      (\<lambda>ob. ob\<lparr> f_entries := Some [], f_resolver := None, f_shadowRoot := None \<rparr>)"
  obtain h2' ds where rec: "entries h1' d = (h2', ds)" by (cases "entries h1' d")
  have res: "h2 = cloneEntries h2' c ds" "cs = ownEntries h2 c"
    using assms(4) entries_unfold(2)[OF c_obj(1) h1'_def c_obj(2,3)] rec
    by (auto simp: Let_def)
  have g11: "grows h1 h1'" unfolding h1'_def using cl1 c_obj(1) by (rule grows_materialise)
  have cl1': "closed h1'" using g11 by (rule grows_closed)
  have l1': "length h1' = length h1" by (simp add: h1'_def)
  have g01': "grows h h1'" using ce(1) g11 by (rule grows_trans)
  have c1': "f_entries (obj_at h1' c) = Some []" "classOf h1' c = VirtualDirectory"
    using c1len c_obj(4) by (simp_all add: h1'_def obj_at_modify classOf_def)
  have d1': "obj_at h1' d = obj_at h d"
    using cd dl by (simp add: h1'_def h1 c obj_at_modify obj_at_append)
  have dc1': "classOf h1' d = VirtualDirectory" using d1' assms(2) by (simp add: classOf_def)
  note e = entries_eq[OF cl1' rec]
  have g12: "grows h1' h2'" using e by blast
  have cl2': "closed h2'" using g12 by (rule grows_closed)
  have d2': "f_entries (obj_at h2' d) = Some ds" using e by blast
  have len2': "length h1' \<le> length h2'" using g12 by (rule grows_length)
  have c2'len: "c < length h2'" using c1len l1' len2' by simp
  have d2'len: "d < length h2'" using dl c c2'len by simp
  have "f_entries (obj_at h1' c) \<noteq> None" using c1' by simp
  then have c2': "obj_at h2' c = obj_at h1' c"
    using entries_keeps[OF cl1' rec] c1len l1' isEntry_directory[OF c1'(2)] by simp
  have own2': "ownEntries h2' c = []" using ownEntries_same[OF c2'] c1' by (simp add: ownEntries_def)
  have cc2': "classOf h2' c = VirtualDirectory" using c2' c1'(2) by (simp add: classOf_def)
  have dc2': "classOf h2' d = VirtualDirectory"
    using grows_class[OF g12, of d] dl c c1len l1' dc1' by simp
  have ds_len: "\<forall>e \<in> set ds. e < length h2'" using closed_entries[OF cl2' d2'] by blast
  have c_ds: "c \<notin> set ds"
  proof (cases "f_entries (obj_at h1' d)")
    case (Some ds0)
    then have "ds = ds0" using entries_known[OF Some] rec by simp
    moreover have "f_entries (obj_at h d) = Some ds0" using Some d1' by simp
    then have "\<forall>e \<in> set ds0. e < length h" using closed_entries[OF assms(1)] by blast
    ultimately show ?thesis using c by auto
  next
    case None
    show ?thesis
      using entries_not_pushed[OF cl1' rec None isEntry_directory[OF dc1'], of c]
        c1len l1' c1' isEntry_directory[OF c1'(2)]
      by simp
  qed
  obtain ks where ks: "ownEntries h2 c = ownEntries h2' c @ ks" "length ks = length ds"
    "\<forall>i < length ds. (classOf h2' (ds ! i) = NoObject \<and> ks ! i = ds ! i)
        \<or> (length h2' \<le> ks ! i \<and> ks ! i < length h2)"
    "\<forall>i < length ds. isEntry h2' (ds ! i)
        \<longrightarrow> length h2' \<le> ks ! i \<and> ks ! i < length h2
            \<and> cloneImage h2' (ds ! i) (obj_at h2 (ks ! i))"
    using cloneEntries_shape[OF cl2' ds_len c2'len isEntry_directory[OF cc2']] unfolding res(1)
    by blast
  have cs: "cs = ks" using res(2) ks(1) own2' by simp
  have g22: "grows h2' h2" unfolding res(1) using cl2' ds_len by (rule cloneEntries_grows)
  have cl2: "closed h2" using g22 by (rule grows_closed)
  have d2: "obj_at h2 d = obj_at h2' d"
    unfolding res(1) using d2'len cd isEntry_directory[OF dc2'] by (intro cloneEntries_frame) simp_all
  have e1: "grows h1 h2" "f_entries (obj_at h2 c) = Some cs"
    using entries_eq[OF cl1 assms(4)] by simp_all
  have cc2: "classOf h2 c = VirtualDirectory" using grows_class[OF e1(1) c1len] c_obj(4) by simp
  have class2: "classOf h2 (ds ! i) = classOf h2' (ds ! i)" if "i < length ds" for i
    using grows_class[OF g22] ds_len that by simp
  have entry2: "isEntry h2 (ds ! i) = isEntry h2' (ds ! i)" if "i < length ds" for i
    using isEntry_grows[OF g22] ds_len that by simp
  have image2: "cloneImage h2 (ds ! i) ob = cloneImage h2' (ds ! i) ob" if "i < length ds" for i ob
    using cloneImage_grows[OF g22] ds_len that by simp
  have "f_entries (obj_at h2 d) = Some ds" using d2 d2' by simp
  moreover have "classOf h2 d = VirtualDirectory" using d2 dc2' by (simp add: classOf_def)
  moreover have "length h2' \<le> length h2" using g22 by (rule grows_length)
  moreover have "\<forall>i < length ds. (classOf h2 (ds ! i) = NoObject \<and> cs ! i = ds ! i) \<or> length h2' \<le> cs ! i"
    using ks(3) class2 cs by auto
  moreover have "\<forall>i < length ds. isEntry h2 (ds ! i)
        \<longrightarrow> length h2' \<le> cs ! i \<and> cs ! i < length h2 \<and> cloneImage h2 (ds ! i) (obj_at h2 (cs ! i))"
    using ks(4) entry2 image2 cs by auto
  ultimately show ?thesis
    using e1(2) cc2 cl2 ks(2) cs cd c_ds d2'len c2'len ds_len by blast
qed

lemma set_spliceOut: "set (spliceOut i xs) \<subseteq> set xs"
  unfolding spliceOut_def using set_take_subset[of i xs] set_drop_subset[of "Suc i" xs] by auto

lemma removeEntry_keeps:
  assumes "f_entries (obj_at h x) = Some xs" "x < length h"
  shows "length (heapAfter (removeEntry env h x name inst)) = length h"
    "classOf (heapAfter (removeEntry env h x name inst)) x = classOf h x"
    "\<exists>xs'. f_entries (obj_at (heapAfter (removeEntry env h x name inst)) x) = Some xs' \<and> set xs' \<subseteq> set xs"
  using assms entries_known[OF assms(1)] set_spliceOut
  by (auto simp: removeEntry_def heapAfter_def obj_at_modify classOf_def split: option.splits)

lemma mutate_keeps:
  assumes "classOf h x = VirtualDirectory" "f_entries (obj_at h x) = Some xs"
  shows "length h \<le> length (mutate env h x m)"
    and "classOf (mutate env h x m) x = VirtualDirectory"
    and "\<exists>xs'. f_entries (obj_at (mutate env h x m) x) = Some xs'
                \<and> set xs' \<subseteq> set xs \<union> {a. length h \<le> a}"
proof -
  have inb: "x < length h" using assms(1) by (rule directory_inb)
  have own: "ownEntries h x = xs" using assms(2) by (simp add: ownEntries_def)
  note g = getFileSystemEntry_known[OF assms(1,2), of env]
  note ea = entries_alloc_known[OF assms(2) inb]
  have ns: "\<not> isSymlink h x" "classOf h x \<noteq> VirtualFile"
    using assms(1) by (simp_all add: isSymlink_def)
  have all: "length h \<le> length (mutate env h x m)
      \<and> classOf (mutate env h x m) x = VirtualDirectory
      \<and> (\<exists>xs'. f_entries (obj_at (mutate env h x m) x) = Some xs'
                \<and> set xs' \<subseteq> set xs \<union> {a. length h \<le> a})"
  proof (cases m)
    case (AddDirectory name r)
    show ?thesis
      unfolding AddDirectory using assms inb
      by (auto simp: mutate_def VirtualDirectory_addDirectory_def g heapAfter_def
            newVirtualDirectory_def alloc_def ea pushEntry_def obj_at_modify obj_at_append
            ownEntries_def classOf_def Let_def split: option.splits)
  next
    case (AddFile name c)
    show ?thesis
      unfolding AddFile using assms inb
      by (auto simp: mutate_def VirtualDirectory_addFile_def g heapAfter_def
            newVirtualFile_def alloc_def ea pushEntry_def obj_at_modify obj_at_append
            ownEntries_def classOf_def Let_def split: option.splits)
  next
    case (AddSymlink name t)
    show ?thesis
      unfolding AddSymlink using assms inb
      by (auto simp: mutate_def VirtualDirectory_addSymlink_def g heapAfter_def
            newVirtualFileSymlink_def newVirtualDirectorySymlink_def alloc_def ea pushEntry_def
            obj_at_modify obj_at_append ownEntries_def classOf_def Let_def split: option.splits)
  next
    case (RemoveDirectory name)
    show ?thesis
      unfolding RemoveDirectory using removeEntry_keeps[OF assms(2) inb, of env name isVirtualDirectory] assms(1)
      by (auto simp: mutate_def VirtualDirectory_removeDirectory_def)
  next
    case (RemoveFile name)
    show ?thesis
      unfolding RemoveFile using removeEntry_keeps[OF assms(2) inb, of env name isVirtualFile] assms(1)
      by (auto simp: mutate_def VirtualDirectory_removeFile_def)
  next
    case MakeReadOnly
    show ?thesis
      unfolding MakeReadOnly using assms inb
      by (auto simp: mutate_def makeReadOnly_def obj_at_modify classOf_def)
  next
    case (SetContent i v)
    show ?thesis
      unfolding SetContent using assms inb own ns
      by (auto simp: mutate_def VirtualFile_setContent_def obj_at_modify classOf_def
            split: option.splits)
  next
    case (SetTarget i t)
    show ?thesis
      unfolding SetTarget using assms inb own ns
      by (auto simp: mutate_def setTarget_def obj_at_modify classOf_def isSymlink_def
            split: option.splits)
  next
    case (MakeChildReadOnly i)
    show ?thesis
      unfolding MakeChildReadOnly using assms inb own
      by (auto simp: mutate_def makeReadOnly_def obj_at_modify classOf_def)
  qed
  then show "length h \<le> length (mutate env h x m)"
    and "classOf (mutate env h x m) x = VirtualDirectory"
    and "\<exists>xs'. f_entries (obj_at (mutate env h x m) x) = Some xs'
                \<and> set xs' \<subseteq> set xs \<union> {a. length h \<le> a}"
    by blast+
qed

lemma mutateAll_frame:
  assumes "classOf h x = VirtualDirectory" "f_entries (obj_at h x) = Some xs"
    "a < length h" "a \<noteq> x" "a \<notin> set xs"
  shows "obj_at (mutateAll env h x ms) a = obj_at h a"
  using assms
proof (induction ms arbitrary: h xs)
  case Nil
  then show ?case by (simp add: mutateAll_def)
next
  case (Cons m ms)
  define h' where "h' = mutate env h x m"
  note k = mutate_keeps[OF Cons.prems(1,2), of env m, folded h'_def]
  obtain xs' where xs': "f_entries (obj_at h' x) = Some xs'" "set xs' \<subseteq> set xs \<union> {a. length h \<le> a}"
    using k(3) by blast
  have a': "obj_at h' a = obj_at h a"
    unfolding h'_def using Cons.prems by (rule mutate_frame)
  have "a \<notin> set xs'" using xs'(2) Cons.prems(3,5) by auto
  moreover have "a < length h'" using k(1) Cons.prems(3) by simp
  ultimately have "obj_at (mutateAll env h' x ms) a = obj_at h' a"
    using Cons.IH[OF k(2) xs'(1)] Cons.prems(4) by blast
  then show ?case using a' by (simp add: mutateAll_def h'_def)
qed

lemma content_keeps_directory:
  assumes "VirtualFile_content h a = (h', v)"
  shows "length h' = length h" "classOf h' b = classOf h b" "f_entries (obj_at h' b) = f_entries (obj_at h b)"
proof -
  note e = content_effect[OF assms]
  show "length h' = length h" using e by simp
  have "contentOnly (obj_at h b) (obj_at h' b)" using e by blast
  then have "obj_at h' b = (obj_at h b)\<lparr> f_content := f_content (obj_at h' b),
      f_contentResolver := f_contentResolver (obj_at h' b),
      f_shadowRoot := f_shadowRoot (obj_at h' b) \<rparr>"
    by (simp add: contentOnly_def)
  then have "f_class (obj_at h' b) = f_class (obj_at h b) \<and> f_entries (obj_at h' b) = f_entries (obj_at h b)"
    by (metis obj.select_convs(1,10) obj.surjective obj.update_convs(12,13,14))
  then show "classOf h' b = classOf h b" "f_entries (obj_at h' b) = f_entries (obj_at h b)"
    by (simp_all add: classOf_def)
qed




end
